theory Spec2Isabelle
  imports Complex_Main "HOL-Library.Log_Nat"
begin

section \<open>Montana CS WFM: data model\<close>

text \<open>
  The planner keeps a roster (agent name, weekday, day block), a vacation store (agent name,
  list of inclusive date ranges) and forecast parameters, and derives 48 half-hour series
  from them. All functions below are translated from the application source
  (the file with \<^verbatim>\<open>halfHourCoverage\<close>, \<^verbatim>\<open>mergeRanges\<close>, \<^verbatim>\<open>exportCSV\<close> and the
  \<^verbatim>\<open>App\<close> component).
\<close>

datatype weekday = Saturday | Sunday | Monday | Tuesday | Wednesday | Thursday | Friday

definition WEEKDAYS :: "weekday list" where
  "WEEKDAYS = [Saturday, Sunday, Monday, Tuesday, Wednesday, Thursday, Friday]"

text \<open>
  Minute counts are JavaScript numbers. Every producer of a day-block field in the source
  (number literals, \<^verbatim>\<open>parseInt\<close>, \<^verbatim>\<open>clamp\<close>, sums and products of these) yields an integer or
  \<^verbatim>\<open>NaN\<close>, so a minute count is modelled as an integer or \<open>NaN\<close>. Arithmetic and comparison
  follow JavaScript: \<open>NaN\<close> is absorbing for \<^verbatim>\<open>+\<close>, \<^verbatim>\<open>-\<close>, \<^verbatim>\<open>*\<close>, \<^verbatim>\<open>Math.min\<close> and
  \<^verbatim>\<open>Math.max\<close>, and every comparison with \<open>NaN\<close> is false.
\<close>

datatype jsnum = Num int | NaN

fun jadd :: "jsnum \<Rightarrow> jsnum \<Rightarrow> jsnum" where
  "jadd (Num a) (Num b) = Num (a + b)"
| "jadd _ _ = NaN"

fun jsub :: "jsnum \<Rightarrow> jsnum \<Rightarrow> jsnum" where
  "jsub (Num a) (Num b) = Num (a - b)"
| "jsub _ _ = NaN"

fun jmul :: "jsnum \<Rightarrow> jsnum \<Rightarrow> jsnum" where
  "jmul (Num a) (Num b) = Num (a * b)"
| "jmul _ _ = NaN"

fun jmin :: "jsnum \<Rightarrow> jsnum \<Rightarrow> jsnum" where
  "jmin (Num a) (Num b) = Num (min a b)"
| "jmin _ _ = NaN"

fun jmax :: "jsnum \<Rightarrow> jsnum \<Rightarrow> jsnum" where
  "jmax (Num a) (Num b) = Num (max a b)"
| "jmax _ _ = NaN"

fun jgt :: "jsnum \<Rightarrow> jsnum \<Rightarrow> bool" where
  "jgt (Num a) (Num b) = (a > b)"
| "jgt _ _ = False"

fun jle :: "jsnum \<Rightarrow> jsnum \<Rightarrow> bool" where
  "jle (Num a) (Num b) = (a \<le> b)"
| "jle _ _ = False"

text \<open>\<^verbatim>\<open>x || 0\<close> on an optional number: \<^verbatim>\<open>undefined\<close>, \<^verbatim>\<open>0\<close> and \<^verbatim>\<open>NaN\<close> are falsy.\<close>

fun orZero :: "jsnum option \<Rightarrow> jsnum" where
  "orZero None = Num 0"
| "orZero (Some NaN) = Num 0"
| "orZero (Some (Num n)) = Num n"

record DayBlock =
  active :: bool
  startMin :: jsnum
  endMin :: jsnum
  breakStartMin :: "jsnum option"
  breakMins :: "jsnum option"

type_synonym Roster = "string \<rightharpoonup> (weekday \<rightharpoonup> DayBlock)"

datatype Level = junior | mid | senior

datatype BreakPref = none | sixty

record Agent =
  name :: string
  country :: string
  remote :: bool
  level :: Level
  fridayAllowed :: bool
  breakPref :: BreakPref

definition DEFAULT_DAY :: DayBlock where
  "DEFAULT_DAY = \<lparr> active = True, startMin = Num (9 * 60), endMin = Num (17 * 60),
     breakStartMin = Some (Num (13 * 60)), breakMins = Some (Num 60) \<rparr>"

subsection \<open>Calendar dates\<close>

text \<open>
  A date is the ISO string \<^verbatim>\<open>YYYY-MM-DD\<close> of a calendar day. The model represents it by
  its day number (days since 1970-01-01): for four-digit years the strings order
  lexicographically as the day numbers order numerically, which is what \<^verbatim>\<open>compareISO\<close>
  relies on. The date fields of the vacation form are never empty (a cleared input falls
  back to \<^verbatim>\<open>isoToday()\<close>).
\<close>

type_synonym isodate = int

definition compareISO :: "isodate \<Rightarrow> isodate \<Rightarrow> int" where
  "compareISO a b = (if a < b then - 1 else if a > b then 1 else 0)"

text \<open>
  \<^verbatim>\<open>addDaysISO\<close> builds \<^verbatim>\<open>new Date(iso + "T00:00:00")\<close>, which is midnight of that day on
  the host's \<^emph>\<open>local\<close> clock, moves it by \<^verbatim>\<open>setDate(getDate() + days)\<close> (still local), and
  returns \<^verbatim>\<open>toISOString().slice(0, 10)\<close>, the date of that instant in \<^emph>\<open>UTC\<close>. The host's
  offset from UTC is therefore an input of the function: \<open>tz\<close> is that offset in minutes,
  positive east of Greenwich (180 for the Saudi site the application is built for), taken
  as constant over the days involved.
\<close>

definition addDaysISO :: "int \<Rightarrow> isodate \<Rightarrow> int \<Rightarrow> isodate" where
  "addDaysISO tz isoDay days =
     (let localMidnight = isoDay * 1440 - tz;
          moved = localMidnight + days * 1440
      in moved div 1440)"

definition withinRange :: "isodate \<Rightarrow> isodate \<Rightarrow> isodate \<Rightarrow> bool" where
  "withinRange date s e \<longleftrightarrow> compareISO s date \<le> 0 \<and> compareISO date e \<le> 0"

text \<open>A vacation range \<^verbatim>\<open>{start, end}\<close>; the field \<^verbatim>\<open>end\<close> is written \<open>endD\<close>.\<close>

record VacationRange =
  start :: isodate
  endD :: isodate

type_synonym Vacations = "string \<rightharpoonup> VacationRange list"

definition isAgentOnVacation :: "string \<Rightarrow> isodate \<Rightarrow> Vacations \<Rightarrow> bool" where
  "isAgentOnVacation agent isoDate vacations =
     (let ranges = (case vacations agent of None \<Rightarrow> [] | Some rs \<Rightarrow> rs)
      in list_ex (\<lambda>r. withinRange isoDate (start r) (endD r)) ranges)"

section \<open>Coverage engine\<close>

text \<open>
  \<^verbatim>\<open>halfHourCoverage\<close>: for each agent, skip it when on vacation or when the roster has no
  active block for the day; otherwise walk the 48 buckets and increment the bucket's
  counter when the working minutes in the bucket exceed the break minutes in it.
\<close>

definition bucketWork :: "DayBlock \<Rightarrow> nat \<Rightarrow> jsnum" where
  "bucketWork blk k =
     (let hs = Num (int k * 30); he = Num ((int k + 1) * 30)
      in jmax (Num 0) (jsub (jmin (endMin blk) he) (jmax (startMin blk) hs)))"

definition bucketBreak :: "DayBlock \<Rightarrow> nat \<Rightarrow> jsnum" where
  "bucketBreak blk k =
     (let hs = Num (int k * 30); he = Num ((int k + 1) * 30)
      in case breakStartMin blk of
           None \<Rightarrow> Num 0
         | Some bs \<Rightarrow>
             if jgt (orZero (breakMins blk)) (Num 0)
             then (let be = jadd bs (orZero (breakMins blk))
                   in jmax (Num 0) (jsub (jmin be he) (jmax bs hs)))
             else Num 0)"

definition bucketCovered :: "DayBlock \<Rightarrow> nat \<Rightarrow> bool" where
  "bucketCovered blk k = jgt (jsub (bucketWork blk k) (bucketBreak blk k)) (Num 0)"

definition coverBuckets :: "DayBlock \<Rightarrow> int list \<Rightarrow> int list" where
  "coverBuckets blk cov =
     foldl (\<lambda>c k. if bucketCovered blk k then c[k := c ! k + 1] else c) cov [0..<48]"

definition coverAgent ::
  "Roster \<Rightarrow> weekday \<Rightarrow> isodate \<Rightarrow> Vacations \<Rightarrow> int list \<Rightarrow> Agent \<Rightarrow> int list" where
  "coverAgent roster day dateISO vacations cov a =
     (if isAgentOnVacation (name a) dateISO vacations then cov
      else case roster (name a) of
             None \<Rightarrow> cov
           | Some week \<Rightarrow>
               (case week day of
                  None \<Rightarrow> cov
                | Some blk \<Rightarrow> if \<not> active blk then cov else coverBuckets blk cov))"

definition halfHourCoverage ::
  "Roster \<Rightarrow> Agent list \<Rightarrow> weekday \<Rightarrow> isodate \<Rightarrow> Vacations \<Rightarrow> int list" where
  "halfHourCoverage roster agents day dateISO vacations =
     foldl (coverAgent roster day dateISO vacations) (replicate 48 0) agents"

text \<open>
  What one agent adds to one bucket, read off the loop body; \<open>halfHourCoverage\<close> is shown
  below to be the sum of these over the agent list.
\<close>

definition agentBucket ::
  "Roster \<Rightarrow> weekday \<Rightarrow> isodate \<Rightarrow> Vacations \<Rightarrow> Agent \<Rightarrow> nat \<Rightarrow> int" where
  "agentBucket roster day dateISO vacations a k =
     (if isAgentOnVacation (name a) dateISO vacations then 0
      else case roster (name a) of
             None \<Rightarrow> 0
           | Some week \<Rightarrow>
               (case week day of
                  None \<Rightarrow> 0
                | Some blk \<Rightarrow> if active blk \<and> bucketCovered blk k then 1 else 0))"

section \<open>Vacation interval store\<close>

text \<open>
  \<^verbatim>\<open>mergeRanges\<close> copies the list, sorts it by start date (the sort is stable) and sweeps it,
  widening the last range kept when the next one starts no later than
  \<^verbatim>\<open>addDaysISO(last.end, 1)\<close>, and appending the next range otherwise.
\<close>

definition mergeStep :: "int \<Rightarrow> VacationRange list \<Rightarrow> VacationRange \<Rightarrow> VacationRange list" where
  "mergeStep tz out r =
     (if out = [] then [r]
      else let lst = last out
           in if compareISO (start r) (addDaysISO tz (endD lst) 1) \<le> 0
              then (if compareISO (endD r) (endD lst) > 0
                    then butlast out @ [lst\<lparr>endD := endD r\<rparr>]
                    else out)
              else out @ [r])"

definition mergeRanges :: "int \<Rightarrow> VacationRange list \<Rightarrow> VacationRange list" where
  "mergeRanges tz ranges =
     (if length ranges \<le> 1 then sort_key start ranges
      else foldl (mergeStep tz) [] (sort_key start ranges))"

text \<open>
  \<^verbatim>\<open>addVacationRange\<close> reads the form fields. It returns silently on an empty agent name,
  raises the alert and returns on \<^verbatim>\<open>start > end\<close>, and otherwise replaces the agent's
  list by the merge of the old list with the new range appended. The result is the alert
  shown (if any) and the store afterwards.
\<close>

definition addVacationRange ::
  "int \<Rightarrow> string \<Rightarrow> isodate \<Rightarrow> isodate \<Rightarrow> Vacations \<Rightarrow> string option \<times> Vacations" where
  "addVacationRange tz agentName startDate endDate prev =
     (if agentName = [] then (None, prev)
      else if compareISO startDate endDate > 0
      then (Some ''End date must be on or after start date.'', prev)
      else (let prevList = (case prev agentName of None \<Rightarrow> [] | Some l \<Rightarrow> l);
                merged = mergeRanges tz (prevList @ [\<lparr>start = startDate, endD = endDate\<rparr>])
            in (None, prev(agentName \<mapsto> merged))))"

text \<open>
  \<^verbatim>\<open>list.splice(idx, 1)\<close>: a negative index counts from the end, the start position is
  clamped into the list, and one element is removed when the start lies inside the list.
\<close>

definition splice1 :: "'a list \<Rightarrow> int \<Rightarrow> 'a list" where
  "splice1 xs idx =
     (let len = int (length xs);
          st = (if idx < 0 then max (len + idx) 0 else min idx len)
      in take (nat st) xs @ drop (nat st + 1) xs)"

definition removeRange :: "string \<Rightarrow> int \<Rightarrow> Vacations \<Rightarrow> Vacations" where
  "removeRange nm idx prev =
     (let lst = splice1 (case prev nm of None \<Rightarrow> [] | Some l \<Rightarrow> l) idx
      in if length lst = 0 then prev(nm := None) else prev(nm \<mapsto> lst))"

definition clearAgent :: "string \<Rightarrow> Vacations \<Rightarrow> Vacations" where
  "clearAgent nm prev = prev(nm := None)"

text \<open>The invariant the store is meant to keep for one agent's list.\<close>

fun separated :: "int \<Rightarrow> VacationRange list \<Rightarrow> bool" where
  "separated gap [] = True"
| "separated gap [r] = True"
| "separated gap (a # b # rs) = (endD a + gap < start b \<and> separated gap (b # rs))"

definition validRanges :: "VacationRange list \<Rightarrow> bool" where
  "validRanges rs = list_all (\<lambda>r. start r \<le> endD r) rs"

section \<open>Demand and requirement engine\<close>

text \<open>
  The load profile, volumes, handle time and occupancy are JavaScript numbers with
  fractions. Every arithmetic operation of JavaScript returns the binary64 number nearest
  to the exact result (ties to even), and a decimal literal denotes the binary64 number
  nearest to it. The engine is written over the rationals with that rounding, \<open>f64\<close>,
  applied after each operation. \<open>f64\<close> is binary64 rounding on the normal range of the
  format; overflow to infinity, subnormal numbers and \<^verbatim>\<open>NaN\<close> are not part of it, and the
  theorems below keep their inputs well inside the normal range. \<^verbatim>\<open>serviceBuffer\<close> comes
  from \<^verbatim>\<open>parseInt\<close> and is an integer.
\<close>

definition pow2 :: "int \<Rightarrow> rat" where
  "pow2 e = (if 0 \<le> e then 2 ^ nat e else 1 / 2 ^ nat (- e))"

definition roundHalfEven :: "rat \<Rightarrow> int" where
  "roundHalfEven x =
     (let f = \<lfloor>x\<rfloor>; d = x - of_int f
      in if d < 1 / 2 then f else if 1 / 2 < d then f + 1 else if even f then f else f + 1)"

text \<open>
  \<open>f64 x\<close>: with \<open>2 ^ e \<le> \<bar>x\<bar> < 2 ^ (e + 1)\<close>, the 53-bit significand is \<open>\<bar>x\<bar> / 2 ^ (e - 52)\<close>
  rounded to an integer. The exponent is found from the bit lengths of numerator and
  denominator, which determine it up to one.
\<close>

definition f64 :: "rat \<Rightarrow> rat" where
  "f64 x =
     (if x = 0 then 0
      else let a = \<bar>x\<bar>;
               (p, q) = quotient_of a;
               e0 = bitlen p - bitlen q;
               e = (if pow2 e0 \<le> a then e0 else e0 - 1);
               m = roundHalfEven (a / pow2 (e - 52))
           in sgn x * of_int m * pow2 (e - 52))"

definition HOURLY_LOAD_PCT_DEFAULT :: "rat list" where
  "HOURLY_LOAD_PCT_DEFAULT = map f64
     [3, 3/2, 1, 8/10, 8/10, 9/10, 12/10, 2,
      35/10, 4, 5, 6, 65/10, 68/10, 7, 72/10,
      7, 65/10, 6, 5, 4, 3, 2, 3/2]"

definition MONTANA_DAILY_AVG :: rat where
  "MONTANA_DAILY_AVG = 650"

text \<open>\<^verbatim>\<open>xs.reduce((a, b) => a + b, 0)\<close>.\<close>

definition jsSum :: "rat list \<Rightarrow> rat" where
  "jsSum xs = foldl (\<lambda>a b. f64 (a + b)) 0 xs"

definition loadPct48 :: "(weekday \<rightharpoonup> rat list) \<Rightarrow> weekday \<Rightarrow> rat list" where
  "loadPct48 hourlyPctByDay selectedDay =
     (let arr = (case hourlyPctByDay selectedDay of
                   None \<Rightarrow> HOURLY_LOAD_PCT_DEFAULT | Some a \<Rightarrow> a)
      in concat (map (\<lambda>v. [f64 (v / 2), f64 (v / 2)]) arr))"

definition demand48 :: "rat list \<Rightarrow> (weekday \<rightharpoonup> rat) \<Rightarrow> weekday \<Rightarrow> rat list" where
  "demand48 pct48 dailyAvg selectedDay =
     (let s0 = jsSum pct48;
          sum = (if s0 = 0 then 1 else s0);
          basePerDay = (case dailyAvg selectedDay of
                          None \<Rightarrow> MONTANA_DAILY_AVG | Some d \<Rightarrow> d)
      in map (\<lambda>p. f64 (basePerDay * f64 (p / sum))) pct48)"

definition required48 :: "rat list \<Rightarrow> rat \<Rightarrow> rat \<Rightarrow> int \<Rightarrow> int list" where
  "required48 dem ahtMin occupancy serviceBuffer =
     map (\<lambda>v30. \<lceil>f64 (f64 (v30 * ahtMin) / max (f64 (1 / 10)) (f64 (30 * occupancy)))\<rceil>
                  + serviceBuffer) dem"

text \<open>Profiles used as examples below; \<open>peakProfile\<close> sums to 100 before rounding.\<close>

definition flatProfile :: "rat list" where
  "flatProfile = [1, 1, 1, 0, 0, 0, 0, 0, 0, 0, 0, 0, 0, 0, 0, 0, 0, 0, 0, 0, 0, 0, 0, 0]"

definition peakProfile :: "rat list" where
  "peakProfile = map f64
     [3, 25/10, 2, 18/10, 18/10, 19/10, 22/10, 3,
      35/10, 4, 5, 6, 65/10, 68/10, 7, 72/10,
      7, 65/10, 6, 5, 4, 3, 2, 23/10]"

text \<open>
  Rounding error is counted in units of \<open>u53\<close>, half the spacing of the doubles in
  \<open>[1, 2)\<close> relative to 1: \<open>near k x y\<close> says that \<open>x\<close> is \<open>y\<close> up to \<open>k\<close> roundings,
  \<open>y (1 - u53) ^ k \<le> x \<le> y / (1 - u53) ^ k\<close>. \<open>inRange\<close> is the bound on inputs under
  which no intermediate result of the engine leaves binary64's normal range.
\<close>

definition u53 :: rat where
  "u53 = 1 / 2 ^ 53"

definition near :: "nat \<Rightarrow> rat \<Rightarrow> rat \<Rightarrow> bool" where
  "near k x y \<longleftrightarrow> y * (1 - u53) ^ k \<le> x \<and> x * (1 - u53) ^ k \<le> y"

definition inRange :: "rat \<Rightarrow> bool" where
  "inRange x \<longleftrightarrow> x = 0 \<or> (1 / 2 ^ 64 \<le> x \<and> x \<le> 2 ^ 64)"

section \<open>Roster bulk importer and CSV export\<close>

text \<open>The agent that \<^verbatim>\<open>onImport\<close> creates for a name it has not seen.\<close>

definition importedAgent :: "string \<Rightarrow> Agent" where
  "importedAgent nm = \<lparr> name = nm, country = ''SA'', remote = True, level = junior,
     fridayAllowed = True, breakPref = sixty \<rparr>"

subsection \<open>Strings\<close>

text \<open>
  Strings are lists of 8-bit characters, and objects used as dictionaries are finite maps
  (properties inherited from \<^verbatim>\<open>Object.prototype\<close> are outside the model).
  \<^verbatim>\<open>String(n)\<close> for an integer is its decimal notation (numbers of 22 digits and more,
  which JavaScript prints with an exponent, are outside the model).
\<close>

definition digitChar :: "nat \<Rightarrow> char" where
  "digitChar n = char_of (48 + n)"

fun natString :: "nat \<Rightarrow> string" where
  "natString n = (if n < 10 then [digitChar n] else natString (n div 10) @ [digitChar (n mod 10)])"

definition jsString :: "int \<Rightarrow> string" where
  "jsString n = (if n < 0 then CHR ''-'' # natString (nat (- n)) else natString (nat n))"

fun jsnumString :: "jsnum \<Rightarrow> string" where
  "jsnumString NaN = ''NaN''"
| "jsnumString (Num n) = jsString n"

text \<open>\<^verbatim>\<open>s.padStart(2, "0")\<close>.\<close>

definition padStart2 :: "string \<Rightarrow> string" where
  "padStart2 s = replicate (2 - length s) CHR ''0'' @ s"

text \<open>\<^verbatim>\<open>m % 60\<close>: the remainder has the sign of the dividend.\<close>

definition jsRem :: "int \<Rightarrow> int \<Rightarrow> int" where
  "jsRem a b = (if a < 0 then - ((- a) mod \<bar>b\<bar>) else a mod \<bar>b\<bar>)"

fun toHHMM :: "jsnum \<Rightarrow> string" where
  "toHHMM NaN = ''NaN:NaN''"
| "toHHMM (Num m) = padStart2 (jsString (m div 60)) @ '':'' @ padStart2 (jsString (jsRem m 60))"

text \<open>
  White space as \<^verbatim>\<open>trim\<close> and \<^verbatim>\<open>parseInt\<close> see it, among 8-bit characters: tab, line feed,
  vertical tab, form feed, carriage return, space and no-break space.
\<close>

definition isSpace :: "char \<Rightarrow> bool" where
  "isSpace c = (of_char c \<in> {9, 10, 11, 12, 13, 32, 160 :: nat})"

definition trim :: "string \<Rightarrow> string" where
  "trim s = rev (dropWhile isSpace (rev (dropWhile isSpace s)))"

definition isDigit :: "char \<Rightarrow> bool" where
  "isDigit c = (48 \<le> (of_char c :: nat) \<and> (of_char c :: nat) \<le> 57)"

definition digitsValue :: "string \<Rightarrow> int" where
  "digitsValue ds = foldl (\<lambda>acc c. acc * 10 + (int (of_char c) - 48)) 0 ds"

text \<open>
  \<^verbatim>\<open>parseInt(s, 10)\<close>: leading white space is skipped, one sign is read, and the longest run
  of decimal digits that follows is the value; with no digit there the result is \<^verbatim>\<open>NaN\<close>.
\<close>

definition parseInt :: "string \<Rightarrow> jsnum" where
  "parseInt s =
     (let s1 = dropWhile isSpace s;
          neg = (s1 \<noteq> [] \<and> hd s1 = CHR ''-'');
          s2 = (if s1 \<noteq> [] \<and> (hd s1 = CHR ''-'' \<or> hd s1 = CHR ''+'') then tl s1 else s1);
          ds = takeWhile isDigit s2
      in if ds = [] then NaN else Num (if neg then - digitsValue ds else digitsValue ds))"

text \<open>\<^verbatim>\<open>toLowerCase\<close> on the letters A to Z.\<close>

definition toLowerCase :: "string \<Rightarrow> string" where
  "toLowerCase s =
     map (\<lambda>c. if 65 \<le> (of_char c :: nat) \<and> (of_char c :: nat) \<le> 90
              then char_of (of_char c + 32 :: nat) else c) s"

text \<open>\<^verbatim>\<open>s.split(c)\<close> for a one-character separator: always at least one piece.\<close>

fun splitOn :: "char \<Rightarrow> string \<Rightarrow> string list" where
  "splitOn c [] = [[]]"
| "splitOn c (x # xs) =
     (if x = c then [] # splitOn c xs
      else (case splitOn c xs of [] \<Rightarrow> [[x]] | p # ps \<Rightarrow> (x # p) # ps))"

text \<open>
  \<^verbatim>\<open>s.split(/\r?\n/)\<close>: the text is cut at every line feed, and a carriage return right
  before a line feed belongs to the separator.
\<close>

definition dropCR :: "string \<Rightarrow> string" where
  "dropCR s = (if s \<noteq> [] \<and> last s = CHR 0x0D then butlast s else s)"

definition splitLines :: "string \<Rightarrow> string list" where
  "splitLines s =
     (let ps = splitOn (CHR 0x0A) s in map dropCR (butlast ps) @ [last ps])"

text \<open>\<^verbatim>\<open>xs.join(sep)\<close>.\<close>

fun joinWith :: "string \<Rightarrow> string list \<Rightarrow> string" where
  "joinWith sep [] = []"
| "joinWith sep [x] = x"
| "joinWith sep (x # y # ys) = x @ sep @ joinWith sep (y # ys)"

subsection \<open>Export\<close>

fun dayName :: "weekday \<Rightarrow> string" where
  "dayName Saturday = ''Saturday''"
| "dayName Sunday = ''Sunday''"
| "dayName Monday = ''Monday''"
| "dayName Tuesday = ''Tuesday''"
| "dayName Wednesday = ''Wednesday''"
| "dayName Thursday = ''Thursday''"
| "dayName Friday = ''Friday''"

definition csvHeader :: "string list" where
  "csvHeader = [''agent'', ''day'', ''active'', ''start'', ''end'', ''break_start'',
     ''break_minutes'']"

text \<open>\<^verbatim>\<open>roster[a.name]?.[d] || DEFAULT_DAY\<close>.\<close>

definition blockOrDefault :: "Roster \<Rightarrow> string \<Rightarrow> weekday \<Rightarrow> DayBlock" where
  "blockOrDefault roster nm d =
     (case roster nm of
        None \<Rightarrow> DEFAULT_DAY
      | Some week \<Rightarrow> (case week d of None \<Rightarrow> DEFAULT_DAY | Some blk \<Rightarrow> blk))"

definition csvCells :: "Roster \<Rightarrow> string \<Rightarrow> weekday \<Rightarrow> string list" where
  "csvCells roster nm d =
     (let blk = blockOrDefault roster nm d
      in [nm,
          dayName d,
          if active blk then ''1'' else ''0'',
          toHHMM (startMin blk),
          toHHMM (endMin blk),
          (case breakStartMin blk of None \<Rightarrow> [] | Some bs \<Rightarrow> toHHMM bs),
          jsnumString (orZero (breakMins blk))])"

definition exportCSV :: "Roster \<Rightarrow> Agent list \<Rightarrow> string" where
  "exportCSV roster agents =
     (let rows = concat (map (\<lambda>a. map (\<lambda>d. joinWith '','' (csvCells roster (name a) d)) WEEKDAYS)
                          agents)
      in joinWith [CHR 0x0A] (joinWith '','' csvHeader # rows))"

subsection \<open>Import\<close>

text \<open>
  A parsed row is the object built by \<^verbatim>\<open>headers.forEach((h, i) => (obj[h] = parts[i] || ""))\<close>:
  a later column with the same header overwrites an earlier one.
\<close>

type_synonym csvRow = "string \<rightharpoonup> string"

definition rowObject :: "string list \<Rightarrow> string list \<Rightarrow> csvRow" where
  "rowObject headers parts =
     foldl (\<lambda>obj (h, i). obj(h \<mapsto> (if i < length parts then parts ! i else [])))
       Map.empty (zip headers [0..<length headers])"

definition parseCSV :: "string \<Rightarrow> string list \<times> csvRow list" where
  "parseCSV text =
     (let lines = splitLines (trim text);
          headers = map trim (splitOn CHR '','' (hd lines));
          rows = map (\<lambda>line. rowObject headers (map trim (splitOn CHR '','' line))) (tl lines)
      in (headers, rows))"

text \<open>
  \<^verbatim>\<open>r[key]\<close> as the importer uses it: every use treats \<^verbatim>\<open>undefined\<close> as it treats the empty
  string.
\<close>

definition cell :: "csvRow \<Rightarrow> string \<Rightarrow> string" where
  "cell r key = (case r key of None \<Rightarrow> [] | Some v \<Rightarrow> v)"

definition dayOfName :: "string \<Rightarrow> weekday option" where
  "dayOfName s = find (\<lambda>d. dayName d = s) WEEKDAYS"

text \<open>
  \<^verbatim>\<open>toMin\<close>: \<^verbatim>\<open>undefined\<close> for an empty cell and for a non-numeric hour or minute; when the
  cell has no colon the minute is \<^verbatim>\<open>undefined\<close>, which passes \<^verbatim>\<open>Number.isNaN\<close> and makes
  the sum \<^verbatim>\<open>NaN\<close>.
\<close>

definition toMin :: "string \<Rightarrow> jsnum option" where
  "toMin hhmm =
     (if hhmm = [] then None
      else case map parseInt (splitOn CHR '':'' hhmm) of
             [] \<Rightarrow> None
           | hh # rest \<Rightarrow>
               (case hh of
                  NaN \<Rightarrow> None
                | Num h \<Rightarrow>
                    (case rest of
                       [] \<Rightarrow> Some NaN
                     | mm # _ \<Rightarrow>
                         (case mm of
                            NaN \<Rightarrow> None
                          | Num m \<Rightarrow> Some (Num (max 0 (min 23 h) * 60 + max 0 (min 59 m)))))))"

text \<open>The block that \<^verbatim>\<open>onImport\<close> builds from one row.\<close>

definition rowBlock :: "csvRow \<Rightarrow> DayBlock" where
  "rowBlock r =
     (let act = (cell r ''active'' = ''1''
                 \<or> trim (toLowerCase (cell r ''active'')) = ''true'');
          startM = (case toMin (cell r ''start'') of
                      None \<Rightarrow> startMin DEFAULT_DAY | Some v \<Rightarrow> v);
          endM = (case toMin (cell r ''end'') of
                    None \<Rightarrow> endMin DEFAULT_DAY | Some v \<Rightarrow> v);
          breakStartM = toMin (cell r ''break_start'');
          bm = cell r ''break_minutes'';
          breakM = (case parseInt (if bm = [] then ''0'' else bm) of
                      NaN \<Rightarrow> 0 | Num n \<Rightarrow> n)
      in \<lparr> active = act, startMin = startM, endMin = endM,
           breakStartMin = (if 0 < breakM then breakStartM else None),
           breakMins = Some (Num (max 0 breakM)) \<rparr>)"

text \<open>
  One turn of the loop over the rows: rows without an agent name or with an unknown day
  are skipped; otherwise the agent is created when its name is new, and the row's block
  replaces the roster entry of that agent and day.
\<close>

definition importRow :: "Agent list \<times> Roster \<Rightarrow> csvRow \<Rightarrow> Agent list \<times> Roster" where
  "importRow st r =
     (let nextAgents = fst st; nextRoster = snd st;
          nm = cell r ''agent''
      in if nm = [] then st
         else case dayOfName (cell r ''day'') of
                None \<Rightarrow> st
              | Some day \<Rightarrow>
                  (let agents' = (if list_ex (\<lambda>a. name a = nm) nextAgents then nextAgents
                                  else nextAgents @ [importedAgent nm]);
                       week = (case nextRoster nm of None \<Rightarrow> Map.empty | Some w \<Rightarrow> w)
                   in (agents', nextRoster(nm \<mapsto> week(day \<mapsto> rowBlock r)))))"

text \<open>
  \<^verbatim>\<open>onImport\<close>: with a required column missing the alert is raised and nothing changes;
  otherwise the rows are folded into copies of the agent list and the roster, which
  become the new state.
\<close>

definition onImport ::
  "string \<Rightarrow> Roster \<Rightarrow> Agent list \<Rightarrow> string option \<times> Agent list \<times> Roster" where
  "onImport text roster agents =
     (let (headers, rows) = parseCSV text
      in if \<not> list_all (\<lambda>h. h \<in> set headers) csvHeader
         then (Some (''CSV headers must be: '' @ joinWith '', '' csvHeader), agents, roster)
         else (let (agents', roster') = foldl importRow (agents, roster) rows
               in (None, agents', roster')))"


text \<open>
  What the export followed by the import makes of a block, and the agent names that
  survive the text format: not empty, no comma, no line feed, no white space at either end.
\<close>

definition reimported :: "DayBlock \<Rightarrow> DayBlock" where
  "reimported blk =
     \<lparr> active = active blk, startMin = startMin blk, endMin = endMin blk,
       breakStartMin = (if jgt (orZero (breakMins blk)) (Num 0) then breakStartMin blk else None),
       breakMins = Some (orZero (breakMins blk)) \<rparr>"

definition csvSafe :: "string \<Rightarrow> bool" where
  "csvSafe nm \<longleftrightarrow> nm \<noteq> [] \<and> CHR '','' \<notin> set nm \<and> CHR 0x0A \<notin> set nm
     \<and> \<not> isSpace (hd nm) \<and> \<not> isSpace (last nm)"

text \<open>\<^verbatim>\<open>roster[nm]?.[d]\<close>.\<close>

definition lookupBlock :: "Roster \<Rightarrow> string \<Rightarrow> weekday \<Rightarrow> DayBlock option" where
  "lookupBlock roster nm d = (case roster nm of None \<Rightarrow> None | Some week \<Rightarrow> week d)"

text \<open>
  Auxiliary notions for the text format: characters that are neither white space nor a
  comma, cells that survive splitting and trimming, lines that survive the splitting of
  the text, and the (agent name, weekday) pairs in the order of the exported rows.
\<close>

definition plain :: "char \<Rightarrow> bool" where
  "plain c \<longleftrightarrow> \<not> isSpace c \<and> c \<noteq> CHR '',''"

definition cellOK :: "string \<Rightarrow> bool" where
  "cellOK s \<longleftrightarrow> CHR '','' \<notin> set s \<and> CHR 0x0A \<notin> set s \<and> trim s = s"

definition goodLine :: "string \<Rightarrow> bool" where
  "goodLine l \<longleftrightarrow> l \<noteq> [] \<and> CHR 0x0A \<notin> set l \<and> \<not> isSpace (hd l) \<and> \<not> isSpace (last l)"

definition exportPairs :: "Agent list \<Rightarrow> (string \<times> weekday) list" where
  "exportPairs agents = concat (map (\<lambda>a. map (\<lambda>d. (name a, d)) WEEKDAYS) agents)"

definition minuteOfDay :: "jsnum \<Rightarrow> bool" where
  "minuteOfDay x = (case x of NaN \<Rightarrow> False | Num m \<Rightarrow> 0 \<le> m \<and> m < 1440)"

definition wellFormedBlock :: "DayBlock \<Rightarrow> bool" where
  "wellFormedBlock blk \<longleftrightarrow> minuteOfDay (startMin blk) \<and> minuteOfDay (endMin blk)
     \<and> (case breakStartMin blk of None \<Rightarrow> True | Some b \<Rightarrow> minuteOfDay b)
     \<and> jle (Num 0) (orZero (breakMins blk))"

section \<open>Properties of the coverage engine\<close>

declare natString.simps [simp del]


lemma jgt_Num0_iff: "jgt x (Num 0) \<longleftrightarrow> (\<exists>n. x = Num n \<and> 0 < n)"
  by (cases x) auto

lemma foldl_bump_upt:
  "n \<le> length cov \<Longrightarrow>
   foldl (\<lambda>c k. if P k then c[k := c ! k + 1] else c) cov [0..<n]
     = map (\<lambda>k. cov ! k + (if P k then 1 else (0::int))) [0..<n] @ drop n cov"
proof (induction n)
  case 0
  then show ?case by simp
next
  case (Suc n)
  then have n: "n < length cov" by simp
  have d: "drop n cov = cov ! n # drop (Suc n) cov"
    using n by (simp add: Cons_nth_drop_Suc)
  show ?case
    using Suc.IH n by (simp add: d list_update_append nth_append)
qed

lemma coverBuckets_eq:
  "length cov = 48 \<Longrightarrow>
   coverBuckets blk cov = map (\<lambda>k. cov ! k + (if bucketCovered blk k then 1 else 0)) [0..<48]"
  unfolding coverBuckets_def by (simp add: foldl_bump_upt)

lemma coverBuckets_none:
  "(\<And>k. \<not> bucketCovered blk k) \<Longrightarrow> coverBuckets blk cov = cov"
proof -
  assume h: "\<And>k. \<not> bucketCovered blk k"
  have "foldl (\<lambda>c k. if bucketCovered blk k then c[k := c ! k + 1] else c) cov ks = cov" for ks
    by (induction ks) (simp_all add: h)
  then show ?thesis by (simp add: coverBuckets_def)
qed

lemma length_coverAgent:
  "length cov = 48 \<Longrightarrow> length (coverAgent roster day dateISO vacations cov a) = 48"
  by (simp add: coverAgent_def coverBuckets_eq split: option.splits)

lemma length_foldl_coverAgent:
  "length cov = 48 \<Longrightarrow> length (foldl (coverAgent roster day dateISO vacations) cov as) = 48"
  by (induction as arbitrary: cov) (simp_all add: length_coverAgent)

lemma length_halfHourCoverage:
  "length (halfHourCoverage roster agents day dateISO vacations) = 48"
  by (simp add: halfHourCoverage_def length_foldl_coverAgent)

lemma coverAgent_nth:
  "length cov = 48 \<Longrightarrow> k < 48 \<Longrightarrow>
   coverAgent roster day dateISO vacations cov a ! k
     = cov ! k + agentBucket roster day dateISO vacations a k"
  by (simp add: coverAgent_def agentBucket_def coverBuckets_eq split: option.splits)

lemma foldl_coverAgent_nth:
  "length cov = 48 \<Longrightarrow> k < 48 \<Longrightarrow>
   foldl (coverAgent roster day dateISO vacations) cov as ! k
     = cov ! k + sum_list (map (\<lambda>a. agentBucket roster day dateISO vacations a k) as)"
proof (induction as arbitrary: cov)
  case Nil
  then show ?case by simp
next
  case (Cons a as)
  then show ?case
    by (simp add: length_coverAgent coverAgent_nth)
qed

lemma halfHourCoverage_nth:
  "k < 48 \<Longrightarrow>
   halfHourCoverage roster agents day dateISO vacations ! k
     = sum_list (map (\<lambda>a. agentBucket roster day dateISO vacations a k) agents)"
  by (simp add: halfHourCoverage_def foldl_coverAgent_nth)

lemma halfHourCoverage_skip:
  assumes "\<And>cov. coverAgent roster day dateISO vacations cov a = cov"
  shows "halfHourCoverage roster (as1 @ a # as2) day dateISO vacations
           = halfHourCoverage roster (as1 @ as2) day dateISO vacations"
  by (simp add: halfHourCoverage_def assms)

lemma isAgentOnVacation_iff:
  "isAgentOnVacation agent d vacations
     \<longleftrightarrow> (\<exists>rs r. vacations agent = Some rs \<and> r \<in> set rs \<and> start r \<le> d \<and> d \<le> endD r)"
proof -
  have w: "withinRange d s e \<longleftrightarrow> s \<le> d \<and> d \<le> e" for s e
    by (auto simp: withinRange_def compareISO_def)
  show ?thesis
    by (cases "vacations agent") (auto simp: isAgentOnVacation_def w list_ex_iff)
qed

lemma default_block_covered:
  "bucketCovered \<lparr> active = act, startMin = Num 540, endMin = Num 1020,
       breakStartMin = Some (Num 780), breakMins = Some (Num 60) \<rparr> k
     \<longleftrightarrow> 18 \<le> k \<and> k \<le> 33 \<and> k \<noteq> 26 \<and> k \<noteq> 27"
  by (simp add: bucketCovered_def bucketWork_def bucketBreak_def min_def max_def) linarith

lemma degenerate_block_uncovered:
  assumes "jle (endMin blk) (startMin blk)"
  shows "\<not> bucketCovered blk k"
proof -
  obtain e s where es: "endMin blk = Num e" "startMin blk = Num s" "e \<le> s"
    using assms by (cases "endMin blk"; cases "startMin blk") auto
  have "min e ((int k + 1) * 30) - max s (int k * 30) \<le> 0"
    using es(3) by linarith
  then have w: "bucketWork blk k = Num 0"
    by (simp add: bucketWork_def es(1,2))
  have "\<not> jgt (jsub (Num 0) b) (Num 0)" if "b = NaN \<or> (\<exists>n. b = Num n \<and> 0 \<le> n)" for b
    using that by auto
  moreover have "bucketBreak blk k = NaN \<or> (\<exists>n. bucketBreak blk k = Num n \<and> 0 \<le> n)"
  proof (cases "breakStartMin blk")
    case None
    then show ?thesis by (simp add: bucketBreak_def)
  next
    case (Some bs)
    then show ?thesis
      by (cases bs; cases "orZero (breakMins blk)") (simp_all add: bucketBreak_def Let_def)
  qed
  ultimately show ?thesis
    by (simp add: bucketCovered_def w)
qed

text \<open>
  C2. An agent who is not on vacation and whose block for the day is
  \<^verbatim>\<open>{active: true, startMin: 540, endMin: 1020, breakStartMin: 780, breakMins: 60}\<close> adds
  exactly 1 to every bucket from 18 to 33 other than 26 and 27, and 0 to buckets 26, 27 and
  to every bucket outside 18..33, whatever other agents are in the list.
\<close>

theorem default_block_contribution:
  assumes "\<not> isAgentOnVacation (name a) dateISO vacations"
    and "roster (name a) = Some week"
    and "week day = Some \<lparr> active = True, startMin = Num 540, endMin = Num 1020,
           breakStartMin = Some (Num 780), breakMins = Some (Num 60) \<rparr>"
    and "k < 48"
  shows "halfHourCoverage roster (as1 @ a # as2) day dateISO vacations ! k
           = halfHourCoverage roster (as1 @ as2) day dateISO vacations ! k
             + (if 18 \<le> k \<and> k \<le> 33 \<and> k \<noteq> 26 \<and> k \<noteq> 27 then 1 else 0)"
proof -
  have "agentBucket roster day dateISO vacations a k
          = (if 18 \<le> k \<and> k \<le> 33 \<and> k \<noteq> 26 \<and> k \<noteq> 27 then 1 else 0)"
    using assms(1-3) by (simp add: agentBucket_def default_block_covered)
  then show ?thesis
    using assms(4) by (simp add: halfHourCoverage_nth)
qed

theorem default_block_contribution_witness:
  "\<not> isAgentOnVacation (name (importedAgent ''Ali'')) 0 Map.empty
   \<and> [''Ali'' \<mapsto> [Monday \<mapsto> DEFAULT_DAY]] (name (importedAgent ''Ali''))
       = Some [Monday \<mapsto> DEFAULT_DAY]
   \<and> (18::nat) < 48
   \<and> halfHourCoverage [''Ali'' \<mapsto> [Monday \<mapsto> DEFAULT_DAY]] [importedAgent ''Ali'']
        Monday 0 Map.empty ! 18 = 1
   \<and> halfHourCoverage [''Ali'' \<mapsto> [Monday \<mapsto> DEFAULT_DAY]] [importedAgent ''Ali'']
        Monday 0 Map.empty ! 26 = 0"
proof -
  let ?R = "[''Ali'' \<mapsto> [Monday \<mapsto> DEFAULT_DAY]]"
  let ?a = "importedAgent ''Ali''"
  have v: "\<not> isAgentOnVacation (name ?a) 0 Map.empty"
    by (simp add: isAgentOnVacation_def)
  have r: "?R (name ?a) = Some [Monday \<mapsto> DEFAULT_DAY]"
    by (simp add: importedAgent_def)
  have d: "[Monday \<mapsto> DEFAULT_DAY] Monday = Some \<lparr> active = True, startMin = Num 540,
             endMin = Num 1020, breakStartMin = Some (Num 780), breakMins = Some (Num 60) \<rparr>"
    by (simp add: DEFAULT_DAY_def)
  have e: "halfHourCoverage ?R [] Monday 0 Map.empty ! k = 0" if "k < 48" for k
    using that by (simp add: halfHourCoverage_def)
  show ?thesis
    using default_block_contribution [where a = ?a and roster = ?R and day = Monday
            and week = "[Monday \<mapsto> DEFAULT_DAY]" and k = 18 and ?as1.0 = "[]" and ?as2.0 = "[]"
            and dateISO = 0 and vacations = Map.empty, OF v r d]
          default_block_contribution [where a = ?a and roster = ?R and day = Monday
            and week = "[Monday \<mapsto> DEFAULT_DAY]" and k = 26 and ?as1.0 = "[]" and ?as2.0 = "[]"
            and dateISO = 0 and vacations = Map.empty, OF v r d] v r e
    by simp
qed

text \<open>
  C3. An agent one of whose stored vacation ranges contains the date (start \<open>\<le>\<close> date
  \<open>\<le>\<close> end) adds nothing to any of the 48 buckets, whatever the roster holds for that
  agent: the coverage is the one computed without the agent, and the agent alone yields 48
  zeros.
\<close>

theorem vacation_excludes_agent:
  assumes "vacations (name a) = Some rs"
    and "r \<in> set rs"
    and "start r \<le> dateISO"
    and "dateISO \<le> endD r"
  shows "halfHourCoverage roster (as1 @ a # as2) day dateISO vacations
           = halfHourCoverage roster (as1 @ as2) day dateISO vacations
         \<and> halfHourCoverage roster [a] day dateISO vacations = replicate 48 0"
proof -
  have "isAgentOnVacation (name a) dateISO vacations"
    using assms isAgentOnVacation_iff by blast
  then have skip: "coverAgent roster day dateISO vacations cov a = cov" for cov
    by (simp add: coverAgent_def)
  show ?thesis
    using halfHourCoverage_skip [of roster day dateISO vacations a, OF skip]
    by (simp add: halfHourCoverage_def skip)
qed

theorem vacation_excludes_agent_witness:
  "[''Ali'' \<mapsto> [\<lparr>start = 5, endD = 10\<rparr>]] (name (importedAgent ''Ali''))
       = Some [\<lparr>start = 5, endD = 10\<rparr>]
   \<and> \<lparr>start = 5, endD = 10\<rparr> \<in> set [\<lparr>start = 5, endD = 10\<rparr>]
   \<and> (5::int) \<le> 7 \<and> (7::int) \<le> 10
   \<and> halfHourCoverage [''Ali'' \<mapsto> [Monday \<mapsto> DEFAULT_DAY]] [importedAgent ''Ali'']
        Monday 7 [''Ali'' \<mapsto> [\<lparr>start = 5, endD = 10\<rparr>]] = replicate 48 0"
proof -
  let ?V = "[''Ali'' \<mapsto> [\<lparr>start = 5, endD = 10\<rparr>]]"
  have v: "?V (name (importedAgent ''Ali'')) = Some [\<lparr>start = 5, endD = 10\<rparr>]"
    by (simp add: importedAgent_def)
  have m: "\<lparr>start = 5, endD = 10\<rparr> \<in> set [\<lparr>start = 5, endD = 10\<rparr>]"
    by simp
  show ?thesis
    using vacation_excludes_agent [where a = "importedAgent ''Ali''" and vacations = ?V
            and rs = "[\<lparr>start = 5, endD = 10\<rparr>]" and r = "\<lparr>start = 5, endD = 10\<rparr>"
            and dateISO = 7 and roster = "[''Ali'' \<mapsto> [Monday \<mapsto> DEFAULT_DAY]]"
            and ?as1.0 = "[]" and ?as2.0 = "[]" and day = Monday, OF v m, THEN conjunct2] v
    by simp
qed

text \<open>
  C4. An agent whose block for the day has \<^verbatim>\<open>endMin \<le> startMin\<close> adds nothing to any of
  the 48 buckets, whatever the block's active flag and break fields are.
\<close>

theorem degenerate_block_contributes_nothing:
  assumes "roster (name a) = Some week"
    and "week day = Some blk"
    and "jle (endMin blk) (startMin blk)"
  shows "halfHourCoverage roster (as1 @ a # as2) day dateISO vacations
           = halfHourCoverage roster (as1 @ as2) day dateISO vacations
         \<and> halfHourCoverage roster [a] day dateISO vacations = replicate 48 0"
proof -
  have "coverBuckets blk cov = cov" for cov
    using degenerate_block_uncovered [OF assms(3)] by (rule coverBuckets_none)
  then have skip: "coverAgent roster day dateISO vacations cov a = cov" for cov
    using assms(1,2) by (simp add: coverAgent_def)
  show ?thesis
    using halfHourCoverage_skip [of roster day dateISO vacations a, OF skip]
    by (simp add: halfHourCoverage_def skip)
qed

theorem degenerate_block_contributes_nothing_witness:
  "[''Ali'' \<mapsto> [Monday \<mapsto> DEFAULT_DAY\<lparr>startMin := Num 1020, endMin := Num 540\<rparr>]]
       (name (importedAgent ''Ali''))
     = Some [Monday \<mapsto> DEFAULT_DAY\<lparr>startMin := Num 1020, endMin := Num 540\<rparr>]
   \<and> jle (endMin (DEFAULT_DAY\<lparr>startMin := Num 1020, endMin := Num 540\<rparr>))
          (startMin (DEFAULT_DAY\<lparr>startMin := Num 1020, endMin := Num 540\<rparr>))
   \<and> halfHourCoverage
        [''Ali'' \<mapsto> [Monday \<mapsto> DEFAULT_DAY\<lparr>startMin := Num 1020, endMin := Num 540\<rparr>]]
        [importedAgent ''Ali''] Monday 0 Map.empty = replicate 48 0"
proof -
  let ?b = "DEFAULT_DAY\<lparr>startMin := Num 1020, endMin := Num 540\<rparr>"
  have r: "[''Ali'' \<mapsto> [Monday \<mapsto> ?b]] (name (importedAgent ''Ali'')) = Some [Monday \<mapsto> ?b]"
    by (simp add: importedAgent_def)
  have d: "[Monday \<mapsto> ?b] Monday = Some ?b"
    by simp
  have j: "jle (endMin ?b) (startMin ?b)"
    by simp
  show ?thesis
    using degenerate_block_contributes_nothing [where a = "importedAgent ''Ali''"
            and roster = "[''Ali'' \<mapsto> [Monday \<mapsto> ?b]]" and week = "[Monday \<mapsto> ?b]"
            and day = Monday and blk = ?b and ?as1.0 = "[]" and ?as2.0 = "[]" and dateISO = 0
            and vacations = Map.empty, OF r d j, THEN conjunct2] r j
    by simp
qed

text \<open>
  C8. The schedule table and the CSV export read a missing weekday as \<^verbatim>\<open>DEFAULT_DAY\<close>, but
  \<^verbatim>\<open>halfHourCoverage\<close> skips the agent: for an agent with a Monday block only, Tuesday's
  coverage is 48 zeros, where the stored default block would give 1 from bucket 18 on.
\<close>

theorem missing_weekday_not_covered:
  "halfHourCoverage [''Ali'' \<mapsto> [Monday \<mapsto> DEFAULT_DAY]] [importedAgent ''Ali'']
      Tuesday 0 Map.empty = replicate 48 0
   \<and> halfHourCoverage [''Ali'' \<mapsto> [Monday \<mapsto> DEFAULT_DAY, Tuesday \<mapsto> DEFAULT_DAY]]
        [importedAgent ''Ali''] Tuesday 0 Map.empty ! 18 = 1"
proof -
  have "halfHourCoverage [''Ali'' \<mapsto> [Monday \<mapsto> DEFAULT_DAY]] [importedAgent ''Ali'']
          Tuesday 0 Map.empty = replicate 48 0"
    by (simp add: halfHourCoverage_def coverAgent_def isAgentOnVacation_def importedAgent_def)
  moreover have "bucketCovered DEFAULT_DAY 18"
    by (simp add: DEFAULT_DAY_def default_block_covered)
  then have "halfHourCoverage [''Ali'' \<mapsto> [Monday \<mapsto> DEFAULT_DAY, Tuesday \<mapsto> DEFAULT_DAY]]
          [importedAgent ''Ali''] Tuesday 0 Map.empty ! 18 = 1"
    by (simp add: halfHourCoverage_nth agentBucket_def isAgentOnVacation_def importedAgent_def
                  DEFAULT_DAY_def)
  ultimately show ?thesis by simp
qed

section \<open>Properties of the vacation store\<close>

text \<open>
  What \<^verbatim>\<open>addDaysISO(e, 1)\<close> returns depends on the host's offset from UTC: the next day
  at or west of Greenwich, the same day east of it.
\<close>

lemma addDaysISO_one: "addDaysISO tz e 1 = e + (1440 - tz) div 1440"
proof -
  have "(e * 1440 - tz + 1440) div 1440 = ((1440 - tz) + e * 1440) div 1440"
    by (simp add: algebra_simps)
  also have "\<dots> = e + (1440 - tz) div 1440"
    by simp
  finally show ?thesis by (simp add: addDaysISO_def)
qed

lemma addDaysISO_west: "- 1440 < tz \<Longrightarrow> tz \<le> 0 \<Longrightarrow> addDaysISO tz e 1 = e + 1"
  by (simp add: addDaysISO_one)

lemma addDaysISO_east: "0 < tz \<Longrightarrow> tz \<le> 1440 \<Longrightarrow> addDaysISO tz e 1 = e"
  by (simp add: addDaysISO_one)

lemma separated_snoc:
  "separated g (out @ [x]) \<longleftrightarrow> separated g out \<and> (out = [] \<or> endD (last out) + g < start x)"
  by (induction g out rule: separated.induct) auto

lemma separated_snoc2:
  "separated g (ys @ [y, x]) \<longleftrightarrow> separated g (ys @ [y]) \<and> endD y + g < start x"
  using separated_snoc [of g "ys @ [y]" x] by simp

lemma separated_short: "length xs \<le> 1 \<Longrightarrow> separated g xs"
  by (cases xs) auto

lemma separated_widen_last:
  "out \<noteq> [] \<Longrightarrow> separated g out \<Longrightarrow> separated g (butlast out @ [(last out)\<lparr>endD := e\<rparr>])"
proof -
  assume "out \<noteq> []" and s: "separated g out"
  then obtain ys y where o: "out = ys @ [y]"
    by (cases out rule: rev_cases) auto
  show ?thesis
    using s by (simp add: o separated_snoc)
qed

lemma mergeStep_invariant:
  assumes "separated g out" "validRanges out" "start x \<le> endD x"
    and "\<And>e. addDaysISO tz e 1 = e + g"
  shows "separated g (mergeStep tz out x) \<and> validRanges (mergeStep tz out x)
         \<and> mergeStep tz out x \<noteq> []"
proof (cases out rule: rev_cases)
  case Nil
  then show ?thesis using assms by (simp add: mergeStep_def validRanges_def)
next
  case (snoc ys y)
  then show ?thesis
    using assms
    by (auto simp: mergeStep_def Let_def compareISO_def separated_snoc separated_snoc2
                   validRanges_def)
qed

lemma foldl_mergeStep_invariant:
  assumes "validRanges xs" and "\<And>e. addDaysISO tz e 1 = e + g"
  shows "separated g (foldl (mergeStep tz) [] xs) \<and> validRanges (foldl (mergeStep tz) [] xs)
         \<and> (xs \<noteq> [] \<longrightarrow> foldl (mergeStep tz) [] xs \<noteq> [])"
  using assms(1)
proof (induction xs rule: rev_induct)
  case Nil
  then show ?case by (simp add: validRanges_def)
next
  case (snoc x xs)
  then have "validRanges xs" "start x \<le> endD x"
    by (simp_all add: validRanges_def)
  then show ?case
    using snoc.IH mergeStep_invariant [OF _ _ _ assms(2)] by simp
qed

lemma validRanges_sort: "validRanges (sort_key start rs) = validRanges rs"
  by (simp add: validRanges_def list_all_iff)

lemma mergeRanges_invariant:
  assumes "validRanges rs" and "\<And>e. addDaysISO tz e 1 = e + g"
  shows "separated g (mergeRanges tz rs) \<and> validRanges (mergeRanges tz rs)
         \<and> (rs \<noteq> [] \<longrightarrow> mergeRanges tz rs \<noteq> [])"
proof (cases "length rs \<le> 1")
  case True
  then have "length (sort_key start rs) \<le> 1" by simp
  then have "separated g (sort_key start rs)"
    by (rule separated_short)
  moreover have "rs \<noteq> [] \<longrightarrow> sort_key start rs \<noteq> []"
    by (metis length_sort length_0_conv)
  ultimately show ?thesis using True assms(1) by (simp add: mergeRanges_def validRanges_sort)
next
  case False
  have "rs \<noteq> [] \<longrightarrow> sort_key start rs \<noteq> []"
    by (metis length_sort length_0_conv)
  then show ?thesis
    using False foldl_mergeStep_invariant [where xs = "sort_key start rs", OF _ assms(2)] assms(1)
    by (simp add: mergeRanges_def validRanges_sort)
qed

lemma separated_sorted:
  "0 \<le> g \<Longrightarrow> separated g rs \<Longrightarrow> validRanges rs \<Longrightarrow> sorted (map start rs)"
proof (induction g rs rule: separated.induct)
  case (3 gap a b rs)
  then have ih: "sorted (map start (b # rs))" by (simp add: validRanges_def)
  have "start a \<le> start b" using 3 by (simp add: validRanges_def)
  then show ?case using ih by auto
qed simp_all


text \<open>
  One insertion keeps the agent's list valid and separated by the gap that the host's
  \<^verbatim>\<open>addDaysISO\<close> yields: at or west of UTC consecutive ranges are at least one free day
  apart (sorted, disjoint and not adjacent); east of UTC they are only disjoint.
\<close>

lemma addVacationRange_invariant:
  assumes "agentName \<noteq> []" and "startDate \<le> endDate"
    and "validRanges (case prev agentName of None \<Rightarrow> [] | Some l \<Rightarrow> l)"
    and "\<And>e. addDaysISO tz e 1 = e + g"
  shows "\<exists>l. snd (addVacationRange tz agentName startDate endDate prev) agentName = Some l
           \<and> l \<noteq> [] \<and> validRanges l \<and> separated g l"
proof -
  let ?old = "case prev agentName of None \<Rightarrow> [] | Some l \<Rightarrow> l"
  let ?new = "?old @ [\<lparr>start = startDate, endD = endDate\<rparr>]"
  have "validRanges ?new"
    using assms(2,3) by (simp add: validRanges_def)
  then have "separated g (mergeRanges tz ?new) \<and> validRanges (mergeRanges tz ?new)
        \<and> mergeRanges tz ?new \<noteq> []"
    using mergeRanges_invariant [where rs = ?new, OF _ assms(4)] by simp
  then show ?thesis
    using assms(1,2) by (simp add: addVacationRange_def compareISO_def Let_def)
qed

lemma addVacationRange_invariant_west:
  assumes "- 1440 < tz" and "tz \<le> 0"
    and "agentName \<noteq> []" and "startDate \<le> endDate"
    and "validRanges (case prev agentName of None \<Rightarrow> [] | Some l \<Rightarrow> l)"
  shows "\<exists>l. snd (addVacationRange tz agentName startDate endDate prev) agentName = Some l
           \<and> validRanges l \<and> separated 1 l \<and> sorted (map start l)"
proof -
  have g: "addDaysISO tz e 1 = e + 1" for e
    using assms(1,2) by (rule addDaysISO_west)
  obtain l where l: "snd (addVacationRange tz agentName startDate endDate prev) agentName = Some l"
      "validRanges l" "separated 1 l"
    using addVacationRange_invariant [where prev = prev and agentName = agentName and g = 1
            and tz = tz, OF assms(3-5) g]
    by blast
  have "sorted (map start l)"
    using l(2,3) separated_sorted [of 1 l] by simp
  then show ?thesis using l by blast
qed

text \<open>
  C1. On a host east of UTC (offset +180 minutes, the Saudi site) inserting
  2024-06-05..2024-06-10 (days 19879..19884) and then 2024-06-11..2024-06-15 (days
  19885..19889) for one agent stores two adjacent ranges; on a host at UTC the same two
  insertions store the single range 2024-06-05..2024-06-15.
\<close>

theorem adjacent_ranges_kept_apart_east_of_utc:
  "snd (addVacationRange 180 ''Ali'' 19885 19889
          (snd (addVacationRange 180 ''Ali'' 19879 19884 Map.empty))) ''Ali''
     = Some [\<lparr>start = 19879, endD = 19884\<rparr>, \<lparr>start = 19885, endD = 19889\<rparr>]
   \<and> snd (addVacationRange 0 ''Ali'' 19885 19889
          (snd (addVacationRange 0 ''Ali'' 19879 19884 Map.empty))) ''Ali''
     = Some [\<lparr>start = 19879, endD = 19889\<rparr>]"
  by (simp add: addVacationRange_def compareISO_def mergeRanges_def mergeStep_def
                addDaysISO_def Let_def)

text \<open>
  C5. For a named agent and dates with start after end, \<^verbatim>\<open>addVacationRange\<close> raises the
  validation alert and the store afterwards is the store before.
\<close>

theorem addVacationRange_rejects_inverted_range:
  assumes "agentName \<noteq> []" and "endDate < startDate"
  shows "addVacationRange tz agentName startDate endDate prev
           = (Some ''End date must be on or after start date.'', prev)"
  using assms by (simp add: addVacationRange_def compareISO_def)

theorem addVacationRange_rejects_inverted_range_witness:
  "''Ali'' \<noteq> [] \<and> (19879::int) < 19884
   \<and> addVacationRange 180 ''Ali'' 19884 19879 [''Ali'' \<mapsto> [\<lparr>start = 1, endD = 2\<rparr>]]
       = (Some ''End date must be on or after start date.'',
          [''Ali'' \<mapsto> [\<lparr>start = 1, endD = 2\<rparr>]])"
proof -
  have n: "''Ali'' \<noteq> []" by simp
  have l: "(19879::int) < 19884" by simp
  show ?thesis
    using addVacationRange_rejects_inverted_range [OF n l, of 180
            "[''Ali'' \<mapsto> [\<lparr>start = 1, endD = 2\<rparr>]]"] n l
    by simp
qed

text \<open>
  C9. For a valid index into an agent's stored list, \<^verbatim>\<open>removeRange\<close> stores the list
  without the element at that position and leaves every other agent's entry alone; when
  the list had one element the agent's key is deleted. The agent's entry is never the empty
  list afterwards, and a store free of empty lists stays free of them.
\<close>

theorem removeRange_deletes_position:
  assumes "prev nm = Some l" and "0 \<le> idx" and "idx < int (length l)"
  shows "removeRange nm idx prev nm
           = (if length l = 1 then None
              else Some (take (nat idx) l @ drop (Suc (nat idx)) l))
         \<and> (\<forall>n. n \<noteq> nm \<longrightarrow> removeRange nm idx prev n = prev n)
         \<and> removeRange nm idx prev nm \<noteq> Some []
         \<and> ((\<forall>n. prev n \<noteq> Some []) \<longrightarrow> (\<forall>n. removeRange nm idx prev n \<noteq> Some []))"
proof -
  define r where "r = take (nat idx) l @ drop (Suc (nat idx)) l"
  have sp: "splice1 l idx = r"
    using assms(2,3) by (simp add: splice1_def Let_def min_def r_def)
  have "length r = length l - 1"
    using assms(2,3) by (simp add: r_def)
  then have "length r = 0 \<longleftrightarrow> length l = 1"
    using assms(2,3) by linarith
  then have e: "r = [] \<longleftrightarrow> length l = 1"
    by simp
  show ?thesis
    unfolding r_def [symmetric]
    using assms(1) by (simp add: removeRange_def Let_def sp e)
qed

theorem removeRange_deletes_position_witness:
  "[''Ali'' \<mapsto> [\<lparr>start = 5, endD = 10\<rparr>, \<lparr>start = 12, endD = 15\<rparr>]] ''Ali''
       = Some [\<lparr>start = 5, endD = 10\<rparr>, \<lparr>start = 12, endD = 15\<rparr>]
   \<and> (0::int) \<le> 1 \<and> (1::int) < int (length [\<lparr>start = 5, endD = 10\<rparr>, \<lparr>start = 12, endD = 15\<rparr>])
   \<and> removeRange ''Ali'' 1 [''Ali'' \<mapsto> [\<lparr>start = 5, endD = 10\<rparr>, \<lparr>start = 12, endD = 15\<rparr>]] ''Ali''
       = Some [\<lparr>start = 5, endD = 10\<rparr>]"
proof -
  let ?l = "[\<lparr>start = 5, endD = 10\<rparr>, \<lparr>start = 12, endD = 15\<rparr>]"
  have p: "[''Ali'' \<mapsto> ?l] ''Ali'' = Some ?l" by simp
  have i: "(0::int) \<le> 1" by simp
  have j: "(1::int) < int (length ?l)" by simp
  show ?thesis
    using removeRange_deletes_position [where prev = "[''Ali'' \<mapsto> ?l]" and nm = "''Ali''"
            and l = ?l and idx = 1, OF p i j, THEN conjunct1] p i j
    by simp
qed

section \<open>Properties of the demand and requirement engine\<close>

subsection \<open>The rounding error of one operation\<close>

text \<open>
  \<open>f64 x\<close> differs from \<open>x\<close> by at most \<open>\<bar>x\<bar> / 2 ^ 53\<close>: the exponent found from the bit
  lengths satisfies \<open>2 ^ e \<le> \<bar>x\<bar>\<close>, and rounding the significand moves it by at most
  one half.
\<close>

lemma pow2_powi: "pow2 e = 2 powi e"
proof (cases "0 \<le> e")
  case True
  then show ?thesis by (simp add: pow2_def power_int_def)
next
  case False
  then show ?thesis by (simp add: pow2_def power_int_def inverse_eq_divide power_one_over)
qed

lemma pow2_pos: "0 < pow2 e"
  by (simp add: pow2_powi)

lemma pow2_add: "pow2 (a + b) = pow2 a * pow2 b"
  by (simp add: pow2_powi power_int_add)

lemma pow2_nat: "0 \<le> e \<Longrightarrow> pow2 e = 2 ^ nat e"
  by (simp add: pow2_def)

lemma pow2_neg: "pow2 (- e) = 1 / pow2 e"
  by (simp add: pow2_powi power_int_minus inverse_eq_divide)

lemma roundHalfEven_error: "\<bar>of_int (roundHalfEven y) - y\<bar> \<le> 1 / 2"
proof -
  define f where "f = \<lfloor>y\<rfloor>"
  define d where "d = y - of_int f"
  have d: "0 \<le> d" "d < 1" unfolding d_def f_def by linarith+
  have r: "roundHalfEven y = (if d < 1 / 2 then f else if 1 / 2 < d then f + 1
                              else if even f then f else f + 1)"
    by (simp only: roundHalfEven_def Let_def f_def d_def)
  have lo: "\<bar>of_int f - y\<bar> = d" and hi: "\<bar>of_int (f + 1) - y\<bar> = 1 - d"
    using d by (simp_all add: d_def abs_if)
  consider "d < 1 / 2" | "1 / 2 < d" | "d = 1 / 2" by linarith
  then show ?thesis
  proof cases
    case 1
    then have "roundHalfEven y = f" by (simp add: r)
    then show ?thesis using lo 1 by simp
  next
    case 2
    then have "roundHalfEven y = f + 1" by (simp add: r)
    then show ?thesis using hi 2 by simp
  next
    case 3
    then have "roundHalfEven y = f \<or> roundHalfEven y = f + 1" by (simp add: r)
    then show ?thesis using lo hi 3 by auto
  qed
qed

lemma exponent_lower:
  assumes "0 < a" and "quotient_of a = (p, q)"
  shows "pow2 (bitlen p - bitlen q - 1) \<le> a"
proof -
  have q: "0 < q" using assms(2) by (rule quotient_of_denom_pos)
  have a: "a = of_int p / of_int q" using assms(2) by (rule quotient_of_div)
  have p: "0 < p" using assms(1) q by (simp add: a zero_less_divide_iff)
  have bp: "2 ^ nat (bitlen p - 1) \<le> p" using bitlen_bounds [OF p] by simp
  have bq: "q < 2 ^ nat (bitlen q)" using bitlen_bounds [OF q] by simp
  have bp1: "1 \<le> bitlen p" using p bitlen_eq_zero_iff [of p] bitlen_nonneg [of p] by linarith
  have "(of_int (2 ^ nat (bitlen p - 1)) :: rat) \<le> of_int p"
    using bp by (simp only: of_int_le_iff)
  then have P: "pow2 (bitlen p - 1) \<le> of_int p"
    using bp1 by (simp add: pow2_nat)
  have "(of_int q :: rat) \<le> of_int (2 ^ nat (bitlen q))"
    using bq by (simp only: of_int_le_iff order_less_imp_le)
  then have Q: "of_int q \<le> pow2 (bitlen q)"
    using bitlen_nonneg [of q] by (simp add: pow2_nat)
  have "pow2 (bitlen p - bitlen q - 1) = pow2 ((bitlen p - 1) + (- bitlen q))"
    by (simp add: algebra_simps)
  also have "\<dots> = pow2 (bitlen p - 1) * pow2 (- bitlen q)"
    by (rule pow2_add)
  also have "\<dots> = pow2 (bitlen p - 1) / pow2 (bitlen q)"
    by (simp add: pow2_neg)
  also have "\<dots> \<le> of_int p / of_int q"
  proof (rule frac_le)
    show "0 \<le> (of_int p :: rat)" using p by simp
    show "pow2 (bitlen p - 1) \<le> of_int p" by (rule P)
    show "0 < (of_int q :: rat)" using q by simp
    show "of_int q \<le> pow2 (bitlen q)" by (rule Q)
  qed
  finally show ?thesis by (simp add: a)
qed

lemma f64_zero: "f64 0 = 0"
  by (simp add: f64_def)

lemma f64_error: "\<bar>f64 x - x\<bar> \<le> \<bar>x\<bar> / 2 ^ 53"
proof (cases "x = 0")
  case True
  then show ?thesis by (simp add: f64_zero)
next
  case False
  define a where "a = \<bar>x\<bar>"
  obtain p q where pq: "quotient_of a = (p, q)" by fastforce
  define e0 where "e0 = bitlen p - bitlen q"
  define e where "e = (if pow2 e0 \<le> a then e0 else e0 - 1)"
  define P where "P = pow2 (e - 52)"
  define m where "m = roundHalfEven (a / P)"
  have apos: "0 < a" using False by (simp add: a_def)
  have "f64 x = (let a = \<bar>x\<bar>; (p, q) = quotient_of a; e0 = bitlen p - bitlen q;
                    e = (if pow2 e0 \<le> a then e0 else e0 - 1);
                    m = roundHalfEven (a / pow2 (e - 52))
                in sgn x * of_int m * pow2 (e - 52))"
    using False by (simp only: f64_def if_False)
  also have "\<dots> = sgn x * of_int m * P"
    unfolding Let_def a_def [symmetric] pq prod.case e0_def [symmetric] e_def [symmetric]
      P_def [symmetric] m_def [symmetric] ..
  finally have f: "f64 x = sgn x * of_int m * P" .
  have Ppos: "0 < P" by (simp add: P_def pow2_pos)
  have "pow2 (e0 - 1) \<le> a"
    using exponent_lower [OF apos pq] by (simp add: e0_def)
  then have le: "pow2 e \<le> a"
    by (simp add: e_def)
  have "pow2 e = pow2 ((e - 52) + 52)" by simp
  also have "\<dots> = P * pow2 52" unfolding P_def by (rule pow2_add)
  finally have Pe: "pow2 e = P * 2 ^ 52" by (simp add: pow2_def)
  have xa: "sgn x * a = x"
    by (simp add: a_def sgn_if abs_if)
  have "sgn x * (of_int m * P - a) = sgn x * of_int m * P - sgn x * a"
    by (simp add: algebra_simps)
  also have "\<dots> = f64 x - x"
    by (simp only: f xa)
  finally have "\<bar>f64 x - x\<bar> = \<bar>sgn x\<bar> * \<bar>of_int m * P - a\<bar>"
    by (simp only: abs_mult [symmetric])
  also have "\<bar>sgn x\<bar> = 1"
    using False by (simp add: sgn_if)
  finally have 1: "\<bar>f64 x - x\<bar> = \<bar>of_int m * P - a\<bar>" by simp
  have "of_int m * P - a = (of_int m - a / P) * P"
    using Ppos by (simp add: algebra_simps)
  then have "\<bar>of_int m * P - a\<bar> = \<bar>of_int m - a / P\<bar> * P"
    using Ppos by (simp add: abs_mult)
  also have "\<dots> \<le> 1 / 2 * P"
    using roundHalfEven_error [of "a / P"] Ppos by (intro mult_right_mono) (simp_all add: m_def)
  also have "\<dots> = pow2 e / 2 ^ 53"
    by (simp add: Pe)
  also have "\<dots> \<le> a / 2 ^ 53"
    using le by (simp add: divide_right_mono)
  finally show ?thesis by (simp add: 1 a_def)
qed

subsection \<open>Accumulated rounding\<close>

text \<open>
  \<open>near\<close> composes: a rounded operation adds one rounding, products and quotients add the
  counts of their arguments, sums of equally rounded terms keep the count.
\<close>

lemma u53_bounds: "0 < u53" "u53 < 1" "0 < 1 - u53" "1 - u53 \<le> 1"
  by (simp_all add: u53_def)

lemma a_pow_pos: "0 < (1 - u53) ^ k"
  using u53_bounds(3) by simp

lemma a_pow_le1: "(1 - u53) ^ k \<le> 1"
  using u53_bounds by (simp add: power_le_one)

lemma near_refl: "near 0 x x"
  by (simp add: near_def)

lemma near_nonneg: "near k x y \<Longrightarrow> 0 \<le> y \<Longrightarrow> 0 \<le> x"
proof -
  assume n: "near k x y" and y: "0 \<le> y"
  have "0 \<le> y * (1 - u53) ^ k" using y a_pow_pos [of k] by simp
  then show ?thesis using n by (simp add: near_def)
qed

lemma near_pos: "near k x y \<Longrightarrow> 0 < y \<Longrightarrow> 0 < x"
proof -
  assume n: "near k x y" and y: "0 < y"
  have "0 < y * (1 - u53) ^ k" using y a_pow_pos [of k] by simp
  then show ?thesis using n by (simp add: near_def)
qed

lemma near_trans:
  assumes "near j x y" and "near k y z"
  shows "near (j + k) x z"
proof -
  let ?a = "1 - u53"
  have aj: "0 \<le> ?a ^ j" and ak: "0 \<le> ?a ^ k"
    using a_pow_pos [of j] a_pow_pos [of k] by simp_all
  have "z * ?a ^ (j + k) = (z * ?a ^ k) * ?a ^ j" by (simp add: power_add algebra_simps)
  also have "\<dots> \<le> y * ?a ^ j"
    using assms(2) aj by (intro mult_right_mono) (simp_all add: near_def)
  also have "\<dots> \<le> x" using assms(1) by (simp add: near_def)
  finally have 1: "z * ?a ^ (j + k) \<le> x" .
  have "x * ?a ^ (j + k) = (x * ?a ^ j) * ?a ^ k" by (simp add: power_add algebra_simps)
  also have "\<dots> \<le> y * ?a ^ k"
    using assms(1) ak by (intro mult_right_mono) (simp_all add: near_def)
  also have "\<dots> \<le> z" using assms(2) by (simp add: near_def)
  finally have 2: "x * ?a ^ (j + k) \<le> z" .
  show ?thesis using 1 2 by (simp add: near_def)
qed

lemma near_mono:
  assumes "near j x y" and "j \<le> k" and "0 \<le> y"
  shows "near k x y"
proof -
  let ?a = "1 - u53"
  have x: "0 \<le> x" using assms(1,3) by (rule near_nonneg)
  have le: "?a ^ k \<le> ?a ^ j"
    using assms(2) u53_bounds by (intro power_decreasing) simp_all
  have "y * ?a ^ k \<le> y * ?a ^ j" using le assms(3) by (rule mult_left_mono)
  also have "\<dots> \<le> x" using assms(1) by (simp add: near_def)
  finally have 1: "y * ?a ^ k \<le> x" .
  have "x * ?a ^ k \<le> x * ?a ^ j" using le x by (rule mult_left_mono)
  also have "\<dots> \<le> y" using assms(1) by (simp add: near_def)
  finally have 2: "x * ?a ^ k \<le> y" .
  show ?thesis using 1 2 by (simp add: near_def)
qed

lemma near_add: "near k x y \<Longrightarrow> near k x' y' \<Longrightarrow> near k (x + x') (y + y')"
  by (simp add: near_def distrib_right add_mono)

lemma near_f64_1:
  assumes "0 \<le> x"
  shows "near 1 (f64 x) x"
proof -
  have e: "\<bar>f64 x - x\<bar> \<le> x * u53"
    using f64_error [of x] assms by (simp add: u53_def)
  then have lo: "x * (1 - u53) \<le> f64 x" and hi: "f64 x \<le> x * (1 + u53)"
    by (simp_all add: algebra_simps abs_le_iff)
  have "f64 x * (1 - u53) \<le> x * (1 + u53) * (1 - u53)"
    using hi u53_bounds(3) by (intro mult_right_mono) simp_all
  also have "\<dots> = x * (1 - u53 * u53)" by (simp add: algebra_simps)
  also have "\<dots> \<le> x * 1"
    using assms u53_bounds(1) by (intro mult_left_mono) simp_all
  finally show ?thesis using lo by (simp add: near_def)
qed

lemma near_f64:
  assumes "near k x y" and "0 \<le> y"
  shows "near (Suc k) (f64 x) y"
proof -
  have "0 \<le> x" using assms by (rule near_nonneg)
  then have "near 1 (f64 x) x" by (rule near_f64_1)
  then have "near (1 + k) (f64 x) y" using assms(1) by (rule near_trans)
  then show ?thesis by simp
qed

lemma near_mult:
  assumes "near j x y" and "near k x' y'" and "0 \<le> y" and "0 \<le> y'"
  shows "near (j + k) (x * x') (y * y')"
proof -
  let ?a = "1 - u53"
  have x: "0 \<le> x" and x': "0 \<le> x'"
    using assms near_nonneg by blast+
  have aj: "0 \<le> ?a ^ j" and ak: "0 \<le> ?a ^ k"
    using a_pow_pos [of j] a_pow_pos [of k] by simp_all
  have "y * y' * ?a ^ (j + k) = (y * ?a ^ j) * (y' * ?a ^ k)"
    by (simp add: power_add algebra_simps)
  also have "\<dots> \<le> x * x'"
    using assms aj ak x x' by (intro mult_mono) (simp_all add: near_def)
  finally have 1: "y * y' * ?a ^ (j + k) \<le> x * x'" .
  have "x * x' * ?a ^ (j + k) = (x * ?a ^ j) * (x' * ?a ^ k)"
    by (simp add: power_add algebra_simps)
  also have "\<dots> \<le> y * y'"
    using assms aj ak x x' by (intro mult_mono) (simp_all add: near_def)
  finally have 2: "x * x' * ?a ^ (j + k) \<le> y * y'" .
  show ?thesis using 1 2 by (simp add: near_def)
qed

lemma near_inverse:
  assumes "near k x y" and "0 < y"
  shows "near k (1 / x) (1 / y)"
proof -
  let ?a = "1 - u53"
  have x: "0 < x" using assms by (rule near_pos)
  have "x * ?a ^ k \<le> y" "y * ?a ^ k \<le> x" using assms(1) by (simp_all add: near_def)
  then have "1 / y * ?a ^ k \<le> 1 / x" "1 / x * ?a ^ k \<le> 1 / y"
    using x assms(2) by (simp_all add: field_simps)
  then show ?thesis by (simp add: near_def)
qed

lemma near_div:
  assumes "near j x y" and "near k x' y'" and "0 \<le> y" and "0 < y'"
  shows "near (j + k) (x / x') (y / y')"
proof -
  have "near (j + k) (x * (1 / x')) (y * (1 / y'))"
    using assms(1) near_inverse [OF assms(2,4)] assms(3,4) by (intro near_mult) simp_all
  then show ?thesis by simp
qed

lemma near_sum_list:
  "list_all2 (near k) xs ys \<Longrightarrow> near k (sum_list xs) (sum_list ys)"
proof (induction rule: list_all2_induct)
  case Nil
  then show ?case by (simp add: near_def)
next
  case (Cons x xs y ys)
  then show ?case by (simp add: near_add)
qed

lemma bernoulli: "1 - of_nat k * u53 \<le> (1 - u53) ^ k"
proof (induction k)
  case 0
  then show ?case by simp
next
  case (Suc k)
  have "1 - of_nat (Suc k) * u53 \<le> (1 - of_nat k * u53) * (1 - u53)"
    using u53_bounds(1) by (simp add: algebra_simps)
  also have "\<dots> \<le> (1 - u53) ^ k * (1 - u53)"
    using Suc u53_bounds(3) by (intro mult_right_mono) simp_all
  finally show ?case by (simp add: mult.commute)
qed

subsection \<open>The engine up to rounding\<close>

lemma length_halves: "length (concat (map (\<lambda>v. [f v, f v]) arr)) = 2 * length arr"
  by (induction arr) simp_all

lemma nth_halves:
  "h < length arr \<Longrightarrow>
   concat (map (\<lambda>v. [f v, f v]) arr) ! (2 * h) = f (arr ! h)
   \<and> concat (map (\<lambda>v. [f v, f v]) arr) ! (2 * h + 1) = f (arr ! h)"
proof (induction arr arbitrary: h)
  case Nil
  then show ?case by simp
next
  case (Cons a arr)
  show ?case
  proof (cases h)
    case 0
    then show ?thesis by simp
  next
    case (Suc j)
    then have "j < length arr" using Cons.prems by simp
    then show ?thesis using Cons.IH [of j] Suc by simp
  qed
qed

lemma required48_nth:
  "k < length dem \<Longrightarrow>
   required48 dem ahtMin occupancy serviceBuffer ! k
     = \<lceil>f64 (f64 (dem ! k * ahtMin) / max (f64 (1 / 10)) (f64 (30 * occupancy)))\<rceil>
       + serviceBuffer"
  by (simp add: required48_def)

lemma inRange_nonneg: "inRange x \<Longrightarrow> 0 \<le> x"
  by (auto simp: inRange_def intro: order_trans [of 0 "1 / 2 ^ 64" x])

lemma list_all_inRange_nonneg: "list_all inRange xs \<Longrightarrow> list_all (\<lambda>p. 0 \<le> p) xs"
  by (induction xs) (simp_all add: inRange_nonneg)

lemma f64_nonneg: "0 \<le> x \<Longrightarrow> 0 \<le> f64 x"
  using near_f64_1 [of x] near_nonneg [of 1 "f64 x" x] by simp

lemma foldl_f64_near:
  assumes "0 \<le> acc" and "list_all (\<lambda>p. 0 \<le> p) xs"
  shows "near (length xs) (foldl (\<lambda>a b. f64 (a + b)) acc xs) (acc + sum_list xs)"
  using assms
proof (induction xs arbitrary: acc)
  case Nil
  then show ?case by (simp add: near_refl)
next
  case (Cons x xs)
  let ?acc' = "f64 (acc + x)"
  have x: "0 \<le> x" and xs: "list_all (\<lambda>p. 0 \<le> p) xs" using Cons.prems(2) by simp_all
  have S: "0 \<le> sum_list xs"
    using xs by (intro sum_list_nonneg) (simp add: list_all_iff)
  have ax: "0 \<le> acc + x" using Cons.prems(1) x by simp
  have n1: "near 1 ?acc' (acc + x)" using ax by (rule near_f64_1)
  have acc': "0 \<le> ?acc'" using ax by (rule f64_nonneg)
  have ih: "near (length xs) (foldl (\<lambda>a b. f64 (a + b)) ?acc' xs) (?acc' + sum_list xs)"
    using acc' xs by (rule Cons.IH)
  have "near 1 (sum_list xs) (sum_list xs)"
    using near_mono [OF near_refl, of 1 "sum_list xs"] S by simp
  then have "near 1 (?acc' + sum_list xs) (acc + x + sum_list xs)"
    using n1 by (intro near_add)
  then have "near (length xs + 1) (foldl (\<lambda>a b. f64 (a + b)) ?acc' xs) (acc + x + sum_list xs)"
    using ih by (intro near_trans)
  then show ?case by (simp add: add.assoc)
qed

lemma jsSum_near:
  "list_all (\<lambda>p. 0 \<le> p) xs \<Longrightarrow> near (length xs) (jsSum xs) (sum_list xs)"
  using foldl_f64_near [of 0 xs] by (simp add: jsSum_def)

lemma halves_nonneg:
  "list_all (\<lambda>p. 0 \<le> p) arr \<Longrightarrow>
   list_all (\<lambda>p. 0 \<le> p) (concat (map (\<lambda>v. [f64 (v / 2), f64 (v / 2)]) arr))"
  by (induction arr) (simp_all add: f64_nonneg)

lemma halves_sum_near:
  "list_all (\<lambda>p. 0 \<le> p) arr \<Longrightarrow>
   near 1 (sum_list (concat (map (\<lambda>v. [f64 (v / 2), f64 (v / 2)]) arr))) (sum_list arr)"
proof (induction arr)
  case Nil
  then show ?case by (simp add: near_def)
next
  case (Cons v arr)
  then have v: "0 \<le> v / 2" by simp
  have "near 1 (f64 (v / 2) + f64 (v / 2)) (v / 2 + v / 2)"
    using near_f64_1 [OF v] by (intro near_add)
  then have "near 1 (f64 (v / 2) + f64 (v / 2)) v" by simp
  then have "near 1 (f64 (v / 2) + f64 (v / 2)
               + sum_list (concat (map (\<lambda>v. [f64 (v / 2), f64 (v / 2)]) arr)))
             (v + sum_list arr)"
    using Cons by (intro near_add) simp_all
  then show ?case by (simp add: add.assoc)
qed

lemma sum_list_scaled:
  "sum_list (map (\<lambda>p. d * (p / t)) xs) = d * (sum_list xs / t)" for d t :: rat
  by (induction xs) (simp_all add: algebra_simps add_divide_distrib)

lemma near_abs:
  assumes "near k x y" and "0 \<le> y" and "of_nat k * u53 \<le> 1 / 2"
  shows "\<bar>x - y\<bar> \<le> y * (2 * of_nat k * u53)"
proof -
  define t where "t = of_nat k * u53"
  have t: "0 \<le> t" "t \<le> 1 / 2"
    using assms(3) u53_bounds(1) by (simp_all add: t_def)
  have x: "0 \<le> x" using assms(1,2) by (rule near_nonneg)
  have b: "1 - t \<le> (1 - u53) ^ k" unfolding t_def by (rule bernoulli)
  have "y * (1 - t) \<le> y * (1 - u53) ^ k" using b assms(2) by (rule mult_left_mono)
  also have "\<dots> \<le> x" using assms(1) by (simp add: near_def)
  finally have lo: "y - x \<le> y * t" by (simp add: algebra_simps)
  have "x * (1 - t) \<le> x * (1 - u53) ^ k" using b x by (rule mult_left_mono)
  also have "\<dots> \<le> y" using assms(1) by (simp add: near_def)
  finally have xy: "x * (1 - t) \<le> y" .
  have "1 \<le> (1 - t) * (1 + 2 * t)"
  proof -
    have "(1 - t) * (1 + 2 * t) = 1 + t * (1 - 2 * t)" by (simp add: algebra_simps)
    moreover have "0 \<le> t * (1 - 2 * t)" using t by (intro mult_nonneg_nonneg) simp_all
    ultimately show ?thesis by simp
  qed
  then have "x * 1 \<le> x * ((1 - t) * (1 + 2 * t))" using x by (rule mult_left_mono)
  also have "\<dots> = (x * (1 - t)) * (1 + 2 * t)" by (simp add: algebra_simps)
  also have "\<dots> \<le> y * (1 + 2 * t)" using xy t(1) by (intro mult_right_mono) simp_all
  finally have hi: "x - y \<le> y * (2 * t)" by (simp add: algebra_simps)
  have "y * t \<le> y * (2 * t)" using assms(2) t(1) by (intro mult_left_mono) simp_all
  then show ?thesis
    using lo hi by (simp add: abs_le_iff t_def algebra_simps)
qed

lemma load_facts:
  assumes "hourlyPctByDay day = Some pct" and "list_all inRange pct"
  shows "length (loadPct48 hourlyPctByDay day) = 2 * length pct"
    and "list_all (\<lambda>p. 0 \<le> p) (loadPct48 hourlyPctByDay day)"
    and "near 1 (sum_list (loadPct48 hourlyPctByDay day)) (sum_list pct)"
    and "near (1 + 2 * length pct) (jsSum (loadPct48 hourlyPctByDay day)) (sum_list pct)"
proof -
  let ?L = "loadPct48 hourlyPctByDay day"
  have L: "?L = concat (map (\<lambda>v. [f64 (v / 2), f64 (v / 2)]) pct)"
    using assms(1) by (simp add: loadPct48_def)
  have nn: "list_all (\<lambda>p. 0 \<le> p) pct"
    using assms(2) by (rule list_all_inRange_nonneg)
  show len: "length ?L = 2 * length pct"
    unfolding L by (rule length_halves)
  show Lnn: "list_all (\<lambda>p. 0 \<le> p) ?L"
    unfolding L using nn by (rule halves_nonneg)
  show T: "near 1 (sum_list ?L) (sum_list pct)"
    unfolding L using nn by (rule halves_sum_near)
  have "near (length ?L) (jsSum ?L) (sum_list ?L)"
    using Lnn by (rule jsSum_near)
  then have "near (length ?L + 1) (jsSum ?L) (sum_list pct)"
    using T by (rule near_trans)
  then show "near (1 + 2 * length pct) (jsSum ?L) (sum_list pct)"
    by (simp add: len)
qed

lemma demand_sum_near:
  assumes "hourlyPctByDay day = Some pct" and "length pct = 24" and "list_all inRange pct"
    and "0 < sum_list pct" and "dailyAvg day = Some d" and "inRange d"
  shows "near 50 (sum_list (demand48 (loadPct48 hourlyPctByDay day) dailyAvg day)) d"
    and "near 98 (jsSum (demand48 (loadPct48 hourlyPctByDay day) dailyAvg day)) d"
proof -
  let ?L = "loadPct48 hourlyPctByDay day"
  let ?T = "sum_list ?L"
  let ?s = "jsSum ?L"
  let ?D = "demand48 ?L dailyAvg day"
  note lf = load_facts [where hourlyPctByDay = hourlyPctByDay and day = day and pct = pct,
                        OF assms(1,3)]
  have d: "0 \<le> d" using assms(6) by (rule inRange_nonneg)
  have len: "length ?L = 48" using lf(1) assms(2) by simp
  have T: "0 < ?T" using lf(3) assms(4) by (rule near_pos)
  have "near (length ?L) ?s ?T" using lf(2) by (rule jsSum_near)
  then have sT: "near 48 ?s ?T" by (simp add: len)
  then have s: "0 < ?s" using T by (rule near_pos)
  have D: "?D = map (\<lambda>p. f64 (d * f64 (p / ?s))) ?L"
    using s assms(5) by (simp add: demand48_def Let_def)
  have tm: "near 50 (f64 (d * f64 (p / ?s))) (d * (p / ?T))" if "0 \<le> p" for p
  proof -
    have pT: "0 \<le> p / ?T" using that T by simp
    have dp: "0 \<le> d * (p / ?T)" using d pT by (rule mult_nonneg_nonneg)
    have "near (0 + 48) (p / ?s) (p / ?T)"
      using near_refl sT that T by (rule near_div)
    then have "near 48 (p / ?s) (p / ?T)" by simp
    then have "near (Suc 48) (f64 (p / ?s)) (p / ?T)"
      using pT by (rule near_f64)
    then have 1: "near 49 (f64 (p / ?s)) (p / ?T)" by simp
    have "near (0 + 49) (d * f64 (p / ?s)) (d * (p / ?T))"
      using near_refl 1 d pT by (rule near_mult)
    then have "near 49 (d * f64 (p / ?s)) (d * (p / ?T))" by simp
    then have "near (Suc 49) (f64 (d * f64 (p / ?s))) (d * (p / ?T))"
      using dp by (rule near_f64)
    then show ?thesis by simp
  qed
  have "list_all2 (near 50) ?D (map (\<lambda>p. d * (p / ?T)) ?L)"
    unfolding D using lf(2) tm by (simp add: list_all2_map1 list_all2_map2 list_all_iff list.rel_refl_strong)
  then have "near 50 (sum_list ?D) (sum_list (map (\<lambda>p. d * (p / ?T)) ?L))"
    by (rule near_sum_list)
  moreover have "sum_list (map (\<lambda>p. d * (p / ?T)) ?L) = d * (?T / ?T)"
    by (rule sum_list_scaled)
  moreover have "d * (?T / ?T) = d"
    using T by simp
  ultimately show n50: "near 50 (sum_list ?D) d"
    by (simp only:)
  have Dnn: "list_all (\<lambda>p. 0 \<le> p) ?D"
    unfolding D using lf(2) d T s
    by (simp add: list_all_iff f64_nonneg)
  have "near (length ?D) (jsSum ?D) (sum_list ?D)"
    using Dnn by (rule jsSum_near)
  then have "near 48 (jsSum ?D) (sum_list ?D)"
    by (simp add: D len)
  then have "near (48 + 50) (jsSum ?D) d"
    using n50 by (rule near_trans)
  then show "near 98 (jsSum ?D) d" by simp
qed

lemma demand_sum_bound:
  assumes "hourlyPctByDay day = Some pct" and "length pct = 24" and "list_all inRange pct"
    and "0 < sum_list pct" and "dailyAvg day = Some d" and "inRange d"
  shows "\<bar>sum_list (demand48 (loadPct48 hourlyPctByDay day) dailyAvg day) - d\<bar> \<le> d / 2 ^ 46
         \<and> \<bar>jsSum (demand48 (loadPct48 hourlyPctByDay day) dailyAvg day) - d\<bar> \<le> d / 2 ^ 45"
proof -
  have d: "0 \<le> d" using assms(6) by (rule inRange_nonneg)
  note n = demand_sum_near [where hourlyPctByDay = hourlyPctByDay and day = day and pct = pct
                             and dailyAvg = dailyAvg and d = d, OF assms]
  have "\<bar>sum_list (demand48 (loadPct48 hourlyPctByDay day) dailyAvg day) - d\<bar>
          \<le> d * (2 * of_nat 50 * u53)"
    using n(1) d by (rule near_abs) (simp add: u53_def)
  also have "\<dots> \<le> d * (1 / 2 ^ 46)"
    using d by (intro mult_left_mono) (simp_all add: u53_def)
  finally have 1: "\<bar>sum_list (demand48 (loadPct48 hourlyPctByDay day) dailyAvg day) - d\<bar>
                     \<le> d / 2 ^ 46" by simp
  have "\<bar>jsSum (demand48 (loadPct48 hourlyPctByDay day) dailyAvg day) - d\<bar>
          \<le> d * (2 * of_nat 98 * u53)"
    using n(2) d by (rule near_abs) (simp add: u53_def)
  also have "\<dots> \<le> d * (1 / 2 ^ 45)"
    using d by (intro mult_left_mono) (simp_all add: u53_def)
  finally have "\<bar>jsSum (demand48 (loadPct48 hourlyPctByDay day) dailyAvg day) - d\<bar>
                  \<le> d / 2 ^ 45" by simp
  then show ?thesis using 1 by simp
qed

lemma near_window:
  assumes "near k x y" and "of_nat k * u53 \<le> 1 / 2" and "lo \<le> y" and "y \<le> hi" and "0 \<le> lo"
  shows "lo * (1 - 2 * of_nat k * u53) \<le> x \<and> x \<le> hi * (1 + 2 * of_nat k * u53)"
proof -
  define t where "t = 2 * of_nat k * u53"
  have t: "0 \<le> t" "t \<le> 1" using assms(2) u53_bounds(1) by (simp_all add: t_def)
  have y: "0 \<le> y" using assms(3,5) by simp
  have "\<bar>x - y\<bar> \<le> y * t"
    unfolding t_def using assms(1) y assms(2) by (rule near_abs)
  then have 1: "y * (1 - t) \<le> x" and 2: "x \<le> y * (1 + t)"
    by (simp_all add: abs_le_iff algebra_simps)
  have "lo * (1 - t) \<le> y * (1 - t)" using assms(3) t by (intro mult_right_mono) simp_all
  moreover have "y * (1 + t) \<le> hi * (1 + t)" using assms(4) t by (intro mult_right_mono) simp_all
  ultimately show ?thesis using 1 2 by (simp add: t_def)
qed

lemma peak_requirement:
  assumes "hourlyPctByDay day = Some pct" and "length pct = 24" and "list_all inRange pct"
    and "92 \<le> sum_list pct" and "sum_list pct \<le> 110"
    and "h < 24" and "pct ! h = f64 (72 / 10)" and "dailyAvg day = Some 650"
    and "j = 2 * h \<or> j = 2 * h + 1"
  shows "required48 (demand48 (loadPct48 hourlyPctByDay day) dailyAvg day)
           6 (f64 (85 / 100)) serviceBuffer ! j = 6 + serviceBuffer"
proof -
  let ?L = "loadPct48 hourlyPctByDay day"
  define S where "S = sum_list pct"
  define s where "s = jsSum ?L"
  define l where "l = f64 (f64 (72 / 10) / 2)"
  define q where "q = f64 (l / s)"
  define dem where "dem = f64 (650 * q)"
  define w where "w = f64 (dem * 6)"
  define den where "den = f64 (30 * f64 (85 / 100))"
  define r where "r = f64 (w / den)"
  define R where "R = 650 * ((36 / 10) / S) * 6 / (51 / 2)"
  note lf = load_facts [where hourlyPctByDay = hourlyPctByDay and day = day and pct = pct,
                        OF assms(1,3)]
  have Spos: "0 < S" using assms(4) by (simp add: S_def)
  have sS: "near 49 s S" using lf(4) by (simp add: s_def S_def assms(2))
  have spos: "0 < s" using sS Spos by (rule near_pos)
  have len: "length ?L = 48" using lf(1) assms(2) by simp
  have jlt: "j < 48" using assms(6,9) by auto
  have L: "?L = concat (map (\<lambda>v. [f64 (v / 2), f64 (v / 2)]) pct)"
    using assms(1) by (simp add: loadPct48_def)
  have hl: "h < length pct" using assms(2,6) by simp
  have Lj: "?L ! j = l"
    using nth_halves [OF hl, of "\<lambda>v. f64 (v / 2)"] assms(7,9) by (auto simp: L l_def)

  have "near 1 (f64 (72 / 10)) (72 / 10)" by (rule near_f64_1) simp
  then have "near (1 + 0) (f64 (72 / 10) / 2) ((72 / 10) / 2)"
    using near_refl by (rule near_div) simp_all
  then have "near 1 (f64 (72 / 10) / 2) (36 / 10)" by simp
  then have "near (Suc 1) l (36 / 10)" unfolding l_def by (rule near_f64) simp
  then have l2: "near 2 l (36 / 10)" by (simp add: numeral_2_eq_2)

  have q0: "0 \<le> (36 / 10) / S" using Spos by simp
  have "near (2 + 49) (l / s) ((36 / 10) / S)"
    using l2 sS _ Spos by (rule near_div) simp
  then have "near 51 (l / s) ((36 / 10) / S)" by simp
  then have "near (Suc 51) q ((36 / 10) / S)" unfolding q_def using q0 by (rule near_f64)
  then have q52: "near 52 q ((36 / 10) / S)" by simp

  have d0: "0 \<le> 650 * ((36 / 10) / S)" using q0 by simp
  have "near (0 + 52) (650 * q) (650 * ((36 / 10) / S))"
    using near_refl q52 _ q0 by (rule near_mult) simp
  then have "near 52 (650 * q) (650 * ((36 / 10) / S))" by simp
  then have "near (Suc 52) dem (650 * ((36 / 10) / S))" unfolding dem_def using d0 by (rule near_f64)
  then have d53: "near 53 dem (650 * ((36 / 10) / S))" by simp

  have w0: "0 \<le> 650 * ((36 / 10) / S) * 6" using d0 by simp
  have "near (53 + 0) (dem * 6) (650 * ((36 / 10) / S) * 6)"
    using d53 near_refl d0 by (rule near_mult) simp
  then have "near 53 (dem * 6) (650 * ((36 / 10) / S) * 6)" by simp
  then have "near (Suc 53) w (650 * ((36 / 10) / S) * 6)" unfolding w_def using w0 by (rule near_f64)
  then have w54: "near 54 w (650 * ((36 / 10) / S) * 6)" by simp

  have o1: "near 1 (f64 (85 / 100)) (85 / 100)" by (rule near_f64_1) simp
  have "near (0 + 1) (30 * f64 (85 / 100)) (30 * (85 / 100))"
    using near_refl o1 by (rule near_mult) simp_all
  then have "near 1 (30 * f64 (85 / 100)) (51 / 2)" by simp
  then have "near (Suc 1) den (51 / 2)" unfolding den_def by (rule near_f64) simp
  then have den2: "near 2 den (51 / 2)" by (simp add: numeral_2_eq_2)

  have "near 1 (f64 (1 / 10)) (1 / 10)" by (rule near_f64_1) simp
  then have "1 / 10 * (1 - 2 * of_nat 1 * u53) \<le> f64 (1 / 10)
             \<and> f64 (1 / 10) \<le> 1 / 10 * (1 + 2 * of_nat 1 * u53)"
    by (rule near_window) (simp_all add: u53_def)
  then have tenth: "f64 (1 / 10) \<le> 1" by (simp add: u53_def)
  have "51 / 2 * (1 - 2 * of_nat 2 * u53) \<le> den \<and> den \<le> 51 / 2 * (1 + 2 * of_nat 2 * u53)"
    using den2 by (rule near_window) (simp_all add: u53_def)
  then have den1: "1 \<le> den" by (simp add: u53_def)
  have mx: "max (f64 (1 / 10)) den = den" using tenth den1 by simp

  have "near (54 + 2) (w / den) (650 * ((36 / 10) / S) * 6 / (51 / 2))"
    using w54 den2 w0 by (rule near_div) simp
  then have "near 56 (w / den) R" by (simp add: R_def)
  moreover have R0: "0 \<le> R" using w0 by (simp add: R_def)
  ultimately have "near (Suc 56) r R" unfolding r_def by (rule near_f64)
  then have r57: "near 57 r R" by simp

  have RS: "R = (28080 / 51) / S" by (simp add: R_def)
  have Rlo: "5004 / 1000 \<le> R"
  proof -
    have "5004 / 1000 \<le> (28080 / 51) / (110 :: rat)" by simp
    also have "\<dots> \<le> (28080 / 51) / S"
      using assms(5) Spos by (intro divide_left_mono) (simp_all add: S_def)
    finally show ?thesis by (simp only: RS)
  qed
  have Rhi: "R \<le> 5985 / 1000"
  proof -
    have "(28080 / 51) / S \<le> (28080 / 51) / (92 :: rat)"
      using assms(4) by (intro divide_left_mono) (simp_all add: S_def)
    also have "\<dots> \<le> 5985 / 1000" by simp
    finally show ?thesis by (simp only: RS)
  qed
  have "5004 / 1000 * (1 - 2 * of_nat 57 * u53) \<le> r
        \<and> r \<le> 5985 / 1000 * (1 + 2 * of_nat 57 * u53)"
    using r57 _ Rlo Rhi by (rule near_window) (simp_all add: u53_def)
  then have "5 < r" "r \<le> 6" by (simp_all add: u53_def)
  then have c: "\<lceil>r\<rceil> = 6" by (simp add: ceiling_eq_iff)

  have D: "demand48 ?L dailyAvg day = map (\<lambda>p. f64 (650 * f64 (p / s))) ?L"
    using spos assms(8) by (simp add: demand48_def Let_def s_def)
  have Dj: "demand48 ?L dailyAvg day ! j = dem"
    using jlt len by (simp add: D Lj dem_def q_def)
  have jD: "j < length (demand48 ?L dailyAvg day)"
    using jlt len by (simp add: D)
  have "required48 (demand48 ?L dailyAvg day) 6 (f64 (85 / 100)) serviceBuffer ! j
          = \<lceil>f64 (f64 (dem * 6) / max (f64 (1 / 10)) (f64 (30 * f64 (85 / 100))))\<rceil>
            + serviceBuffer"
    by (simp only: required48_nth [OF jD] Dj)
  also have "\<dots> = \<lceil>r\<rceil> + serviceBuffer"
    by (simp only: r_def w_def den_def [symmetric] mx)
  finally show ?thesis by (simp add: c)
qed

lemma inRange_f64:
  assumes "1 / 2 ^ 63 \<le> x" and "x \<le> 2 ^ 63"
  shows "inRange (f64 x)"
proof -
  have x: "0 \<le> x" using assms(1) by (rule order_trans [rotated]) simp
  have "near 1 (f64 x) x" using x by (rule near_f64_1)
  then have "1 / 2 ^ 63 * (1 - 2 * of_nat 1 * u53) \<le> f64 x
             \<and> f64 x \<le> 2 ^ 63 * (1 + 2 * of_nat 1 * u53)"
    using _ assms by (rule near_window) (simp_all add: u53_def)
  then have "1 / 2 ^ 64 \<le> f64 x \<and> f64 x \<le> 2 ^ 64"
    by (simp add: u53_def)
  then show ?thesis by (simp add: inRange_def)
qed

lemma map_f64_sum_near:
  "list_all (\<lambda>p. 0 \<le> p) xs \<Longrightarrow> near 1 (sum_list (map f64 xs)) (sum_list xs)"
proof (induction xs)
  case Nil
  then show ?case by (simp add: near_def)
next
  case (Cons x xs)
  then have "near 1 (f64 x) x" by (intro near_f64_1) simp
  then show ?case using Cons by (simp add: near_add)
qed

lemma peakProfile_facts:
  "length peakProfile = 24" "list_all inRange peakProfile"
  "92 \<le> sum_list peakProfile" "sum_list peakProfile \<le> 110"
  "peakProfile ! 15 = f64 (72 / 10)"
proof -
  let ?xs = "[3, 25/10, 2, 18/10, 18/10, 19/10, 22/10, 3,
      35/10, 4, 5, 6, 65/10, 68/10, 7, 72/10,
      7, 65/10, 6, 5, 4, 3, 2, 23/10 :: rat]"
  show "length peakProfile = 24" by (simp add: peakProfile_def)
  show "peakProfile ! 15 = f64 (72 / 10)" by (simp add: peakProfile_def)
  have "\<forall>x\<in>set ?xs. 1 / 2 ^ 63 \<le> x \<and> x \<le> 2 ^ 63" by simp
  then have "\<forall>x\<in>set ?xs. inRange (f64 x)" using inRange_f64 by blast
  then show "list_all inRange peakProfile"
    unfolding peakProfile_def list_all_iff by (simp only: set_map ball_simps)
  have "near 1 (sum_list (map f64 ?xs)) (sum_list ?xs)"
    by (rule map_f64_sum_near) simp
  moreover have "sum_list ?xs = 100" by simp
  ultimately have "near 1 (sum_list peakProfile) 100"
    by (simp only: peakProfile_def)
  then have "100 * (1 - 2 * of_nat 1 * u53) \<le> sum_list peakProfile
             \<and> sum_list peakProfile \<le> 100 * (1 + 2 * of_nat 1 * u53)"
    by (rule near_window) (simp_all add: u53_def)
  then show "92 \<le> sum_list peakProfile" "sum_list peakProfile \<le> 110"
    by (simp_all add: u53_def)
qed

text \<open>
  C7. In the arithmetic of the code, the required headcount of bucket \<open>k\<close> is the ceiling
  of \<^verbatim>\<open>expectedVolume[k] * ahtMin / max(0.1, 30 * occupancy)\<close> plus \<^verbatim>\<open>serviceBuffer\<close>. With a
  daily average of 650, a handle time of 6 minutes, an occupancy of 0.85 and a profile of
  24 percentages whose sum lies between 92 and 110 (100 in the claim, 92.2 for the
  built-in profile) and whose hour \<open>h\<close> carries 7.2 percent, both buckets of hour \<open>h\<close>
  require \<open>6 + serviceBuffer\<close>.
\<close>

theorem required48_formula:
  assumes "hourlyPctByDay day = Some pct" and "length pct = 24" and "list_all inRange pct"
  shows "(\<forall>k<48.
            required48 (demand48 (loadPct48 hourlyPctByDay day) dailyAvg day)
                ahtMin occupancy serviceBuffer ! k
              = \<lceil>f64 (f64 (demand48 (loadPct48 hourlyPctByDay day) dailyAvg day ! k * ahtMin)
                       / max (f64 (1 / 10)) (f64 (30 * occupancy)))\<rceil> + serviceBuffer)
         \<and> (92 \<le> sum_list pct \<and> sum_list pct \<le> 110 \<and> h < 24 \<and> pct ! h = f64 (72 / 10)
              \<and> dailyAvg day = Some 650 \<longrightarrow>
            required48 (demand48 (loadPct48 hourlyPctByDay day) dailyAvg day)
                6 (f64 (85 / 100)) serviceBuffer ! (2 * h) = 6 + serviceBuffer
            \<and> required48 (demand48 (loadPct48 hourlyPctByDay day) dailyAvg day)
                6 (f64 (85 / 100)) serviceBuffer ! (2 * h + 1) = 6 + serviceBuffer)"
proof -
  have "length (loadPct48 hourlyPctByDay day) = 48"
    using assms(1,2) by (simp add: loadPct48_def length_halves)
  then have len: "length (demand48 (loadPct48 hourlyPctByDay day) dailyAvg day) = 48"
    by (simp add: demand48_def Let_def)
  have 1: "\<forall>k<48.
            required48 (demand48 (loadPct48 hourlyPctByDay day) dailyAvg day)
                ahtMin occupancy serviceBuffer ! k
              = \<lceil>f64 (f64 (demand48 (loadPct48 hourlyPctByDay day) dailyAvg day ! k * ahtMin)
                       / max (f64 (1 / 10)) (f64 (30 * occupancy)))\<rceil> + serviceBuffer"
    using len by (simp add: required48_nth)
  have 2: "required48 (demand48 (loadPct48 hourlyPctByDay day) dailyAvg day)
             6 (f64 (85 / 100)) serviceBuffer ! j = 6 + serviceBuffer"
    if "92 \<le> sum_list pct" "sum_list pct \<le> 110" "h < 24" "pct ! h = f64 (72 / 10)"
       "dailyAvg day = Some 650" "j = 2 * h \<or> j = 2 * h + 1" for j
    using peak_requirement [where hourlyPctByDay = hourlyPctByDay and day = day and pct = pct
            and h = h and dailyAvg = dailyAvg and j = j, OF assms that] .
  show ?thesis
    using 1 2 by blast
qed

theorem required48_formula_witness:
  "[Monday \<mapsto> peakProfile] Monday = Some peakProfile \<and> length peakProfile = 24
   \<and> list_all inRange peakProfile
   \<and> 92 \<le> sum_list peakProfile \<and> sum_list peakProfile \<le> 110
   \<and> (15::nat) < 24 \<and> peakProfile ! 15 = f64 (72 / 10)
   \<and> [Monday \<mapsto> (650::rat)] Monday = Some 650
   \<and> required48 (demand48 (loadPct48 [Monday \<mapsto> peakProfile] Monday) [Monday \<mapsto> 650] Monday)
        6 (f64 (85 / 100)) 2 ! 30 = 8"
proof -
  have h: "[Monday \<mapsto> peakProfile] Monday = Some peakProfile" by simp
  have d: "[Monday \<mapsto> (650::rat)] Monday = Some 650" by simp
  have i: "(15::nat) < 24" by simp
  have "required48 (demand48 (loadPct48 [Monday \<mapsto> peakProfile] Monday) [Monday \<mapsto> 650] Monday)
          6 (f64 (85 / 100)) 2 ! (2 * 15) = 6 + 2"
    using required48_formula [where hourlyPctByDay = "[Monday \<mapsto> peakProfile]"
            and day = Monday and pct = peakProfile and h = 15 and dailyAvg = "[Monday \<mapsto> 650]"
            and serviceBuffer = 2, OF h peakProfile_facts(1,2)]
          peakProfile_facts(3,4,5) d i
    by blast
  then show ?thesis
    using h d i peakProfile_facts by simp
qed

text \<open>
  C10 as stated fails in the arithmetic the code runs on. For the profile with 1 percent in
  each of the first three hours and 0 elsewhere (24 non-negative entries, sum 3) and a
  daily average of 1, the 48 expected volumes are six times the double nearest to 1/6 and
  42 zeros: their exact sum is \<open>1 - 1 / 2 ^ 54\<close>, and summed the way JavaScript sums them
  it is \<open>1 - 1 / 2 ^ 53\<close>, the double just below 1.
\<close>

lemma f64_small:
  "f64 (1 / 2) = 1 / 2" "f64 1 = 1" "f64 (3 / 2) = 3 / 2" "f64 2 = 2" "f64 (5 / 2) = 5 / 2"
  "f64 3 = 3"
  by code_simp+

lemma f64_sixth:
  "f64 (1 / 6) = 6004799503160661 / 36028797018963968"
  "f64 (6004799503160661 / 36028797018963968) = 6004799503160661 / 36028797018963968"
  by code_simp+

lemma f64_sixth_sums:
  "f64 (6004799503160661 / 18014398509481984) = 6004799503160661 / 18014398509481984"
  "f64 (18014398509481983 / 36028797018963968) = 1 / 2"
  "f64 (24019198012642645 / 36028797018963968) = 6004799503160661 / 9007199254740992"
  "f64 (30023997515803305 / 36028797018963968) = 3752999689475413 / 4503599627370496"
  "f64 (36028797018963965 / 36028797018963968) = 9007199254740991 / 9007199254740992"
  "f64 (9007199254740991 / 9007199254740992) = 9007199254740991 / 9007199254740992"
  by code_simp+

lemma flat_load:
  "loadPct48 [Monday \<mapsto> flatProfile] Monday
     = [1/2, 1/2, 1/2, 1/2, 1/2, 1/2] @ replicate 42 0"
  by (simp add: loadPct48_def flatProfile_def f64_zero f64_small eval_nat_numeral)

lemma jsSum_zeros: "f64 a = a \<Longrightarrow> foldl (\<lambda>a b. f64 (a + b)) a (replicate n 0) = a"
  by (induction n) simp_all

lemma flat_sum: "jsSum ([1/2, 1/2, 1/2, 1/2, 1/2, 1/2] @ replicate 42 0) = 3"
  by (simp add: jsSum_def f64_small jsSum_zeros)

lemma flat_demand:
  "demand48 (loadPct48 [Monday \<mapsto> flatProfile] Monday) [Monday \<mapsto> 1] Monday
     = [6004799503160661 / 36028797018963968, 6004799503160661 / 36028797018963968,
        6004799503160661 / 36028797018963968, 6004799503160661 / 36028797018963968,
        6004799503160661 / 36028797018963968, 6004799503160661 / 36028797018963968]
       @ replicate 42 0"
proof -
  let ?L = "[1/2, 1/2, 1/2, 1/2, 1/2, 1/2] @ replicate 42 (0::rat)"
  have "demand48 ?L [Monday \<mapsto> 1] Monday = map (\<lambda>p. f64 (1 * f64 (p / 3))) ?L"
    unfolding demand48_def flat_sum Let_def by simp
  also have "\<dots> = [6004799503160661 / 36028797018963968, 6004799503160661 / 36028797018963968,
        6004799503160661 / 36028797018963968, 6004799503160661 / 36028797018963968,
        6004799503160661 / 36028797018963968, 6004799503160661 / 36028797018963968]
       @ replicate 42 0"
    by (simp add: f64_zero f64_sixth)
  finally show ?thesis by (simp only: flat_load)
qed

lemma sum_replicate0: "sum_list (replicate n (0::rat)) = 0"
  by (induction n) simp_all

lemma flat_exact_sum:
  "sum_list ([6004799503160661 / 36028797018963968, 6004799503160661 / 36028797018963968,
        6004799503160661 / 36028797018963968, 6004799503160661 / 36028797018963968,
        6004799503160661 / 36028797018963968, 6004799503160661 / 36028797018963968]
       @ replicate 42 0)
     = (18014398509481983 / 18014398509481984 :: rat)"
  by (simp add: sum_replicate0)

lemma flat_js_sum:
  "jsSum ([6004799503160661 / 36028797018963968, 6004799503160661 / 36028797018963968,
        6004799503160661 / 36028797018963968, 6004799503160661 / 36028797018963968,
        6004799503160661 / 36028797018963968, 6004799503160661 / 36028797018963968]
       @ replicate 42 0)
     = 9007199254740991 / 9007199254740992"
  by (simp add: jsSum_def f64_sixth f64_sixth_sums jsSum_zeros)


theorem demand_sum_inexact_in_binary64:
  "length flatProfile = 24 \<and> list_all (\<lambda>p. 0 \<le> p) flatProfile \<and> 0 < sum_list flatProfile
   \<and> sum_list (demand48 (loadPct48 [Monday \<mapsto> flatProfile] Monday)
                 [Monday \<mapsto> 1] Monday) \<noteq> 1
   \<and> jsSum (demand48 (loadPct48 [Monday \<mapsto> flatProfile] Monday)
                 [Monday \<mapsto> 1] Monday) \<noteq> 1"
proof -
  have "length flatProfile = 24 \<and> list_all (\<lambda>p. 0 \<le> p) flatProfile \<and> 0 < sum_list flatProfile"
    by (simp add: flatProfile_def)
  then show ?thesis
    by (simp only: flat_demand flat_exact_sum flat_js_sum) simp
qed

text \<open>
  C10, amended. For a weekday with 24 hourly percentages, each 0 or between \<open>2 ^ 64\<close>
  inverse and \<open>2 ^ 64\<close>, with a positive sum, and a daily average in the same range, the
  48 expected volumes computed by the code add up to the daily average up to rounding:
  their exact sum is within the fraction \<open>1 / 2 ^ 46\<close> of the daily average, and their sum
  computed with JavaScript's addition within the fraction \<open>1 / 2 ^ 45\<close>.
\<close>

theorem demand_sum_within_rounding:
  assumes "hourlyPctByDay day = Some pct" and "length pct = 24" and "list_all inRange pct"
    and "0 < sum_list pct" and "dailyAvg day = Some d" and "inRange d"
  shows "\<bar>sum_list (demand48 (loadPct48 hourlyPctByDay day) dailyAvg day) - d\<bar> \<le> d / 2 ^ 46
         \<and> \<bar>jsSum (demand48 (loadPct48 hourlyPctByDay day) dailyAvg day) - d\<bar> \<le> d / 2 ^ 45"
  using demand_sum_bound [where hourlyPctByDay = hourlyPctByDay and day = day and pct = pct
          and dailyAvg = dailyAvg and d = d, OF assms] .

theorem demand_sum_within_rounding_witness:
  "[Monday \<mapsto> flatProfile] Monday = Some flatProfile \<and> length flatProfile = 24
   \<and> list_all inRange flatProfile \<and> 0 < sum_list flatProfile
   \<and> [Monday \<mapsto> (1::rat)] Monday = Some 1 \<and> inRange 1
   \<and> \<bar>sum_list (demand48 (loadPct48 [Monday \<mapsto> flatProfile] Monday) [Monday \<mapsto> 1] Monday) - 1\<bar>
       \<le> 1 / 2 ^ 46
   \<and> \<bar>jsSum (demand48 (loadPct48 [Monday \<mapsto> flatProfile] Monday) [Monday \<mapsto> 1] Monday) - 1\<bar>
       \<le> 1 / 2 ^ 45"
proof -
  have h: "[Monday \<mapsto> flatProfile] Monday = Some flatProfile" by simp
  have l: "length flatProfile = 24" by (simp add: flatProfile_def)
  have r: "list_all inRange flatProfile" by (simp add: flatProfile_def inRange_def)
  have p: "0 < sum_list flatProfile" by (simp add: flatProfile_def)
  have d: "[Monday \<mapsto> (1::rat)] Monday = Some 1" by simp
  have i: "inRange 1" by (simp add: inRange_def)
  show ?thesis
    using demand_sum_within_rounding [where hourlyPctByDay = "[Monday \<mapsto> flatProfile]"
            and day = Monday and pct = flatProfile and dailyAvg = "[Monday \<mapsto> 1]" and d = 1,
            OF h l r p d i] h l r p d i
    by simp
qed

section \<open>Properties of the CSV export and import\<close>

subsection \<open>Numbers and times as text\<close>

lemma of_char_digitChar: "d < 10 \<Longrightarrow> (of_char (digitChar d) :: nat) = 48 + d"
  by (simp add: digitChar_def)

lemma isDigit_digitChar: "d < 10 \<Longrightarrow> isDigit (digitChar d)"
  by (simp add: isDigit_def of_char_digitChar)

lemma isDigit_not_special:
  assumes "isDigit c"
  shows "\<not> isSpace c" "c \<noteq> CHR ''-''" "c \<noteq> CHR ''+''" "c \<noteq> CHR '',''" "c \<noteq> CHR '':''"
    "c \<noteq> CHR 0x0A" "c \<noteq> CHR 0x0D"
  using assms by (auto simp: isDigit_def isSpace_def)

lemma natString_digits: "list_all isDigit (natString n)"
proof (induction n rule: natString.induct)
  case (1 n)
  show ?case
  proof (cases "n < 10")
    case True
    then show ?thesis by (subst natString.simps) (simp add: isDigit_digitChar)
  next
    case False
    then show ?thesis
      using 1 by (subst natString.simps) (simp add: isDigit_digitChar)
  qed
qed

lemma natString_nonempty: "natString n \<noteq> []"
  by (subst natString.simps) simp

lemma digitsValue_snoc: "digitsValue (ds @ [c]) = digitsValue ds * 10 + (int (of_char c) - 48)"
  by (simp add: digitsValue_def)

lemma digitsValue_natString: "digitsValue (natString n) = int n"
proof (induction n rule: natString.induct)
  case (1 n)
  show ?case
  proof (cases "n < 10")
    case True
    then show ?thesis
      by (subst natString.simps) (simp add: digitsValue_def of_char_digitChar)
  next
    case False
    then have "digitsValue (natString n) = int (n div 10) * 10 + int (n mod 10)"
      using 1 by (subst natString.simps) (simp add: digitsValue_snoc of_char_digitChar)
    then show ?thesis by (simp add: zdiv_int zmod_int)
  qed
qed

lemma digitsValue_zeros: "digitsValue (replicate k CHR ''0'' @ ds) = digitsValue ds"
proof -
  have "foldl (\<lambda>acc c. acc * 10 + (int (of_char c) - 48)) 0 (replicate k CHR ''0'') = 0"
    by (induction k) simp_all
  then show ?thesis by (simp add: digitsValue_def)
qed

lemma parseInt_digits:
  assumes "ds \<noteq> []" and "list_all isDigit ds"
  shows "parseInt ds = Num (digitsValue ds)"
proof -
  obtain c cs where ds: "ds = c # cs" using assms(1) by (cases ds) auto
  then have c: "isDigit c" using assms(2) by simp
  have "takeWhile isDigit ds = ds"
    using assms(2) by (simp add: list_all_iff takeWhile_eq_all_conv)
  then show ?thesis
    using isDigit_not_special [OF c] assms(1) by (simp add: parseInt_def ds Let_def)
qed

lemma parseInt_natString: "parseInt (natString n) = Num (int n)"
  by (simp add: parseInt_digits natString_nonempty natString_digits digitsValue_natString)

lemma padStart2_digits: "list_all isDigit ds \<Longrightarrow> list_all isDigit (padStart2 ds)"
  by (auto simp: padStart2_def list_all_iff isDigit_def)

lemma parseInt_padStart2_natString: "parseInt (padStart2 (natString n)) = Num (int n)"
proof -
  have "padStart2 (natString n) \<noteq> []" by (simp add: padStart2_def natString_nonempty)
  moreover have "list_all isDigit (padStart2 (natString n))"
    by (simp add: padStart2_digits natString_digits)
  ultimately have "parseInt (padStart2 (natString n)) = Num (digitsValue (padStart2 (natString n)))"
    by (rule parseInt_digits)
  then show ?thesis by (simp add: padStart2_def digitsValue_zeros digitsValue_natString)
qed

lemma splitOn_none: "c \<notin> set p \<Longrightarrow> splitOn c p = [p]"
  by (induction p) auto

lemma splitOn_append: "c \<notin> set p \<Longrightarrow> splitOn c (p @ c # rest) = p # splitOn c rest"
  by (induction p) auto

lemma splitOn_nonempty: "splitOn c s \<noteq> []"
  by (induction s) (auto split: list.splits)

lemma splitOn_joinWith:
  "xs \<noteq> [] \<Longrightarrow> \<forall>x\<in>set xs. c \<notin> set x \<Longrightarrow> splitOn c (joinWith [c] xs) = xs"
proof (induction "[c]" xs rule: joinWith.induct)
  case 1
  then show ?case by simp
next
  case (2 x)
  then show ?case by (simp add: splitOn_none)
next
  case (3 x y ys)
  then show ?case by (simp add: splitOn_append)
qed

lemma dropWhile_hd: "s \<noteq> [] \<Longrightarrow> \<not> P (hd s) \<Longrightarrow> dropWhile P s = s"
  by (cases s) auto

lemma trim_id:
  assumes "s = [] \<or> (\<not> isSpace (hd s) \<and> \<not> isSpace (last s))"
  shows "trim s = s"
proof (cases s rule: rev_cases)
  case Nil
  then show ?thesis by (simp add: trim_def)
next
  case (snoc ys y)
  then have h: "s \<noteq> []" "\<not> isSpace (hd s)" "\<not> isSpace y"
    using assms by auto
  have 1: "dropWhile isSpace s = s"
    using h(1,2) by (rule dropWhile_hd)
  have 2: "dropWhile isSpace (rev s) = rev s"
    using h(3) by (simp add: snoc)
  show ?thesis by (simp add: trim_def 1 2)
qed

lemma toMin_toHHMM:
  assumes "0 \<le> m" and "m < 1440"
  shows "toMin (toHHMM (Num m)) = Some (Num m)"
proof -
  define H where "H = padStart2 (natString (nat (m div 60)))"
  define M where "M = padStart2 (natString (nat (m mod 60)))"
  have hm: "0 \<le> m div 60" "m div 60 \<le> 23" "0 \<le> m mod 60" "m mod 60 \<le> 59"
    using assms by auto
  have "\<not> m div 60 < 0" "\<not> m mod 60 < 0" "\<not> m < 0"
    using hm assms by linarith+
  then have j: "jsString (m div 60) = natString (nat (m div 60))"
      "jsString (m mod 60) = natString (nat (m mod 60))" "jsRem m 60 = m mod 60"
    unfolding jsString_def jsRem_def by simp_all
  have t: "toHHMM (Num m) = H @ CHR '':'' # M"
    by (simp add: H_def M_def j)
  have dH: "list_all isDigit H" and dM: "list_all isDigit M"
    by (simp_all add: H_def M_def padStart2_digits natString_digits)
  have cH: "CHR '':'' \<notin> set H" and cM: "CHR '':'' \<notin> set M"
    using dH dM isDigit_not_special(5) by (auto simp: list_all_iff)
  have s: "splitOn CHR '':'' (H @ CHR '':'' # M) = [H, M]"
    by (simp add: splitOn_append [OF cH] splitOn_none [OF cM])
  have pH: "parseInt H = Num (m div 60)" and pM: "parseInt M = Num (m mod 60)"
    using hm by (simp_all add: H_def M_def parseInt_padStart2_natString)
  show ?thesis
    unfolding t using hm by (simp add: toMin_def s pH pM)
qed


lemma isSpace_LF: "isSpace (CHR 0x0A)"
  by (simp add: isSpace_def)

lemma plain_cellOK: "list_all plain s \<Longrightarrow> cellOK s"
proof -
  assume p: "list_all plain s"
  have "s = [] \<or> (\<not> isSpace (hd s) \<and> \<not> isSpace (last s))"
    using p hd_in_set [of s] last_in_set [of s]
    by (cases "s = []") (auto simp: list_all_iff plain_def)
  then have "trim s = s" by (rule trim_id)
  moreover have "CHR '','' \<notin> set s" "CHR 0x0A \<notin> set s"
    using p isSpace_LF by (auto simp: list_all_iff plain_def)
  ultimately show ?thesis by (simp add: cellOK_def)
qed

lemma csvSafe_cellOK: "csvSafe nm \<Longrightarrow> cellOK nm"
  by (simp add: csvSafe_def cellOK_def trim_id)

lemma isDigit_plain: "isDigit c \<Longrightarrow> plain c"
  using isDigit_not_special(1,4) by (simp add: plain_def)

lemma plain_natString: "list_all plain (natString n)"
  using natString_digits [of n] isDigit_plain by (auto simp: list_all_iff)

lemma plain_jsString: "list_all plain (jsString n)"
  by (simp add: jsString_def plain_natString) (simp add: plain_def isSpace_def)

lemma plain_zero: "plain CHR ''0''"
  by (simp add: plain_def isSpace_def)

lemma plain_padStart2: "list_all plain s \<Longrightarrow> list_all plain (padStart2 s)"
  using plain_zero by (auto simp: padStart2_def list_all_iff)

lemma plain_toHHMM: "list_all plain (toHHMM x)"
proof (cases x)
  case (Num m)
  have "plain CHR '':''" by (simp add: plain_def isSpace_def)
  then show ?thesis by (simp add: Num plain_padStart2 plain_jsString)
next
  case NaN
  then show ?thesis by (simp add: plain_def isSpace_def)
qed

lemma plain_jsnumString: "list_all plain (jsnumString x)"
  by (cases x) (simp_all add: plain_jsString, simp add: plain_def isSpace_def)

lemma plain_dayName: "list_all plain (dayName d)"
  by (cases d) (simp_all add: plain_def isSpace_def)

lemma cellOK_csvCells:
  assumes "csvSafe nm"
  shows "\<forall>c\<in>set (csvCells roster nm d). cellOK c"
proof -
  have "cellOK ''1''" "cellOK ''0''" "cellOK []"
    by (rule plain_cellOK, simp add: plain_def isSpace_def)+
  then show ?thesis
    using csvSafe_cellOK [OF assms]
    by (auto simp: csvCells_def Let_def plain_cellOK plain_toHHMM plain_jsnumString plain_dayName
             split: option.splits)
qed

lemma length_csvCells: "length (csvCells roster nm d) = 7"
  by (simp add: csvCells_def Let_def)

lemma set_joinWith: "set (joinWith sep xs) \<subseteq> set sep \<union> \<Union> (set ` set xs)"
  by (induction sep xs rule: joinWith.induct) auto

lemma line_cells:
  assumes "\<forall>c\<in>set cells. cellOK c" and "cells \<noteq> []"
  shows "map trim (splitOn CHR '','' (joinWith '','' cells)) = cells"
    and "CHR 0x0A \<notin> set (joinWith '','' cells)"
proof -
  have "splitOn CHR '','' (joinWith '','' cells) = cells"
    using assms by (intro splitOn_joinWith) (auto simp: cellOK_def)
  moreover have "map trim cells = cells"
    using assms(1) by (simp add: cellOK_def map_idI)
  ultimately show "map trim (splitOn CHR '','' (joinWith '','' cells)) = cells" by simp
  show "CHR 0x0A \<notin> set (joinWith '','' cells)"
    using set_joinWith [of "'',''" cells] assms(1) by (auto simp: cellOK_def)
qed

lemma joinWith_nonempty: "xs \<noteq> [] \<Longrightarrow> last xs \<noteq> [] \<Longrightarrow> joinWith sep xs \<noteq> []"
  by (induction sep xs rule: joinWith.induct) auto

lemma last_joinWith: "xs \<noteq> [] \<Longrightarrow> last xs \<noteq> [] \<Longrightarrow> last (joinWith sep xs) = last (last xs)"
proof (induction sep xs rule: joinWith.induct)
  case (3 sep x y ys)
  then have "joinWith sep (y # ys) \<noteq> []"
    by (intro joinWith_nonempty) auto
  then show ?case using 3 by simp
qed simp_all

lemma hd_joinWith: "xs \<noteq> [] \<Longrightarrow> hd xs \<noteq> [] \<Longrightarrow> hd (joinWith sep xs) = hd (hd xs)"
  by (induction sep xs rule: joinWith.induct) auto


lemma isSpace_CR: "isSpace (CHR 0x0D)"
  by (simp add: isSpace_def)

lemma dropCR_goodLine: "goodLine l \<Longrightarrow> dropCR l = l"
  using isSpace_CR by (auto simp: goodLine_def dropCR_def)

lemma text_lines:
  assumes "ls \<noteq> []" and "\<forall>l\<in>set ls. goodLine l"
  shows "splitLines (trim (joinWith [CHR 0x0A] ls)) = ls"
proof -
  let ?t = "joinWith [CHR 0x0A] ls"
  have hl: "goodLine (hd ls)" "goodLine (last ls)"
    using assms by simp_all
  have ne: "?t \<noteq> []"
    using assms(1) hl(2) by (intro joinWith_nonempty) (simp_all add: goodLine_def)
  have "hd ?t = hd (hd ls)" "last ?t = last (last ls)"
    using assms(1) hl by (simp_all add: hd_joinWith last_joinWith goodLine_def)
  then have "trim ?t = ?t"
    using hl by (intro trim_id) (simp add: goodLine_def)
  moreover have "splitOn (CHR 0x0A) ?t = ls"
    using assms by (intro splitOn_joinWith) (auto simp: goodLine_def)
  moreover have "map dropCR (butlast ls) = butlast ls"
    using assms(2) by (auto intro!: map_idI dropCR_goodLine dest: in_set_butlastD)
  ultimately show ?thesis
    using assms(1) by (simp add: splitLines_def Let_def)
qed

lemma cellOK_header: "\<forall>c\<in>set csvHeader. cellOK c"
proof -
  have "\<forall>c\<in>set csvHeader. list_all plain c"
    by (simp add: csvHeader_def plain_def isSpace_def)
  then show ?thesis using plain_cellOK by blast
qed

lemma goodLine_header: "goodLine (joinWith '','' csvHeader)"
  by (simp add: csvHeader_def goodLine_def isSpace_def)

lemma jsnumString_orZero: "jsnumString (orZero x) \<noteq> []"
  by (cases x rule: orZero.cases) (simp_all add: jsString_def natString_nonempty)

lemma goodLine_row:
  assumes "csvSafe nm"
  shows "goodLine (joinWith '','' (csvCells roster nm d))"
proof -
  let ?cells = "csvCells roster nm d"
  let ?lastc = "jsnumString (orZero (breakMins (blockOrDefault roster nm d)))"
  have c: "?cells \<noteq> []" "hd ?cells = nm" "last ?cells = ?lastc"
    by (simp_all add: csvCells_def Let_def)
  have ln: "?lastc \<noteq> []" by (rule jsnumString_orZero)
  have "list_all plain ?lastc" by (rule plain_jsnumString)
  then have lp: "\<not> isSpace (last ?lastc)"
    using ln last_in_set [of ?lastc] by (auto simp: list_all_iff plain_def)
  have nm: "nm \<noteq> []" "\<not> isSpace (hd nm)"
    using assms by (simp_all add: csvSafe_def)
  have "joinWith '','' ?cells \<noteq> []"
    using c ln by (intro joinWith_nonempty) simp_all
  moreover have "hd (joinWith '','' ?cells) = hd nm"
    using c nm by (simp add: hd_joinWith)
  moreover have "last (joinWith '','' ?cells) = last ?lastc"
    using c ln by (simp add: last_joinWith)
  moreover have "CHR 0x0A \<notin> set (joinWith '','' ?cells)"
    using line_cells(2) [OF cellOK_csvCells [OF assms] c(1)] .
  ultimately show ?thesis
    using nm lp by (simp add: goodLine_def)
qed

lemma export_rows_pairs:
  "concat (map (\<lambda>a. map (\<lambda>d. f (name a) d) WEEKDAYS) agents)
     = map (\<lambda>(nm, d). f nm d) (exportPairs agents)"
  by (induction agents) (simp_all add: exportPairs_def)

lemma exportPairs_names: "(nm, d) \<in> set (exportPairs agents) \<Longrightarrow> \<exists>a\<in>set agents. nm = name a"
  by (auto simp: exportPairs_def)

lemma exportPairs_member: "a \<in> set agents \<Longrightarrow> (name a, d) \<in> set (exportPairs agents)"
proof -
  have "d \<in> set WEEKDAYS" by (cases d) (simp_all add: WEEKDAYS_def)
  then show "a \<in> set agents \<Longrightarrow> ?thesis" by (auto simp: exportPairs_def)
qed

lemma parseCSV_exportCSV:
  assumes "\<forall>a\<in>set agents. csvSafe (name a)"
  shows "parseCSV (exportCSV roster agents)
           = (csvHeader,
              map (\<lambda>(nm, d). rowObject csvHeader (csvCells roster nm d)) (exportPairs agents))"
proof -
  let ?hl = "joinWith '','' csvHeader"
  let ?rls = "map (\<lambda>(nm, d). joinWith '','' (csvCells roster nm d)) (exportPairs agents)"
  have e: "exportCSV roster agents = joinWith [CHR 0x0A] (?hl # ?rls)"
    by (simp add: exportCSV_def Let_def
          export_rows_pairs [of "\<lambda>nm d. joinWith '','' (csvCells roster nm d)"])
  have safe: "csvSafe nm" if "(nm, d) \<in> set (exportPairs agents)" for nm d
    using that assms exportPairs_names by blast
  have g: "\<forall>l\<in>set (?hl # ?rls). goodLine l"
    using goodLine_header goodLine_row safe by auto
  have l: "splitLines (trim (exportCSV roster agents)) = ?hl # ?rls"
    unfolding e using g by (intro text_lines) simp_all
  have h: "map trim (splitOn CHR '','' ?hl) = csvHeader"
    using cellOK_header by (intro line_cells(1)) (simp_all add: csvHeader_def)
  have r: "map trim (splitOn CHR '','' (joinWith '','' (csvCells roster nm d)))
             = csvCells roster nm d" if "(nm, d) \<in> set (exportPairs agents)" for nm d
    using cellOK_csvCells [OF safe [OF that]]
    by (intro line_cells(1)) (simp_all add: csvCells_def Let_def)
  show ?thesis
    using r by (auto simp: parseCSV_def l h Let_def)
qed

lemma rowObject_header7:
  "rowObject csvHeader [c0, c1, c2, c3, c4, c5, c6]
     = [''agent'' \<mapsto> c0, ''day'' \<mapsto> c1, ''active'' \<mapsto> c2, ''start'' \<mapsto> c3, ''end'' \<mapsto> c4,
        ''break_start'' \<mapsto> c5, ''break_minutes'' \<mapsto> c6]"
  by (simp add: rowObject_def csvHeader_def upt_rec)

lemma dayOfName_dayName: "dayOfName (dayName d) = Some d"
  by (cases d) (simp_all add: dayOfName_def WEEKDAYS_def)

lemma toMin_empty: "toMin [] = None"
  by (simp add: toMin_def)

lemma parseInt_jsString: "0 \<le> n \<Longrightarrow> parseInt (jsString n) = Num n"
  by (simp add: jsString_def parseInt_natString)

lemma active_cell:
  "((if act then ''1'' else ''0'') = ''1''
    \<or> trim (toLowerCase (if act then ''1'' else ''0'')) = ''true'') = act"
  by (simp add: trim_def toLowerCase_def isSpace_def)

lemma toMin_minuteOfDay: "minuteOfDay x \<Longrightarrow> toMin (toHHMM x) = Some x"
  using toMin_toHHMM by (cases x) (auto simp: minuteOfDay_def simp del: toHHMM.simps)

lemma rowBlock_export:
  assumes "wellFormedBlock (blockOrDefault roster nm d)"
  shows "rowBlock (rowObject csvHeader (csvCells roster nm d))
           = reimported (blockOrDefault roster nm d)"
proof -
  define blk where "blk = blockOrDefault roster nm d"
  obtain n where n: "orZero (breakMins blk) = Num n" "0 \<le> n"
    using assms by (cases "breakMins blk" rule: orZero.cases) (auto simp: wellFormedBlock_def blk_def)
  have s: "toMin (toHHMM (startMin blk)) = Some (startMin blk)"
    and e: "toMin (toHHMM (endMin blk)) = Some (endMin blk)"
    using assms by (simp_all add: wellFormedBlock_def blk_def toMin_minuteOfDay)
  have b: "toMin (case breakStartMin blk of None \<Rightarrow> [] | Some bs \<Rightarrow> toHHMM bs) = breakStartMin blk"
    using assms
    by (cases "breakStartMin blk") (simp_all add: wellFormedBlock_def blk_def toMin_empty toMin_minuteOfDay)
  have p: "parseInt (jsString n) = Num n" "jsString n \<noteq> []"
    using n(2) parseInt_jsString [of n] by (simp_all add: jsString_def natString_nonempty)
  show ?thesis
    unfolding blk_def [symmetric]
    by (simp add: csvCells_def Let_def rowObject_header7 rowBlock_def cell_def blk_def [symmetric]
                  active_cell s e b n p reimported_def max_def)
qed

lemma importRow_export:
  assumes "nm \<noteq> []"
  shows "snd (importRow st (rowObject csvHeader (csvCells roster nm d)))
           = (snd st)(nm \<mapsto> (case snd st nm of None \<Rightarrow> Map.empty | Some w \<Rightarrow> w)
                              (d \<mapsto> rowBlock (rowObject csvHeader (csvCells roster nm d))))"
proof -
  let ?r = "rowObject csvHeader (csvCells roster nm d)"
  have "cell ?r ''agent'' = nm" "cell ?r ''day'' = dayName d"
    by (simp_all add: csvCells_def Let_def rowObject_header7 cell_def)
  then show ?thesis
    using assms by (simp add: importRow_def Let_def dayOfName_dayName)
qed

lemma foldl_importRow_export:
  assumes "\<forall>(nm, d)\<in>set ps. nm \<noteq> []" and "(nm, d) \<in> set ps"
  shows "lookupBlock
           (snd (foldl importRow st
                   (map (\<lambda>(nm, d). rowObject csvHeader (csvCells roster nm d)) ps))) nm d
           = Some (rowBlock (rowObject csvHeader (csvCells roster nm d)))"
  using assms
proof (induction ps rule: rev_induct)
  case Nil
  then show ?case by simp
next
  case (snoc p ps)
  obtain nm' d' where p: "p = (nm', d')" by (cases p)
  have ne: "nm' \<noteq> []" using snoc.prems(1) p by simp
  let ?st = "foldl importRow st (map (\<lambda>(nm, d). rowObject csvHeader (csvCells roster nm d)) ps)"
  have step: "snd (foldl importRow st
                (map (\<lambda>(nm, d). rowObject csvHeader (csvCells roster nm d)) (ps @ [p])))
              = (snd ?st)(nm' \<mapsto> (case snd ?st nm' of None \<Rightarrow> Map.empty | Some w \<Rightarrow> w)
                              (d' \<mapsto> rowBlock (rowObject csvHeader (csvCells roster nm' d'))))"
    by (simp add: p importRow_export [OF ne])
  show ?case
  proof (cases "(nm, d) = (nm', d')")
    case True
    then show ?thesis unfolding step by (simp add: lookupBlock_def)
  next
    case False
    then have "(nm, d) \<in> set ps" using snoc.prems(2) p by auto
    then have ih: "lookupBlock (snd ?st) nm d
                     = Some (rowBlock (rowObject csvHeader (csvCells roster nm d)))"
      using snoc.IH snoc.prems(1) by simp
    show ?thesis
      unfolding step using False ih by (auto simp: lookupBlock_def split: option.splits)
  qed
qed

lemma header_present: "list_all (\<lambda>h. h \<in> set csvHeader) csvHeader"
  by (simp add: list_all_iff)

lemma export_import_block:
  assumes "\<forall>a\<in>set agents. csvSafe (name a)" and "a \<in> set agents"
  shows "fst (onImport (exportCSV roster agents) roster0 agents0) = None"
    and "lookupBlock (snd (snd (onImport (exportCSV roster agents) roster0 agents0))) (name a) d
           = Some (rowBlock (rowObject csvHeader (csvCells roster (name a) d)))"
proof -
  let ?rows = "map (\<lambda>(nm, d). rowObject csvHeader (csvCells roster nm d)) (exportPairs agents)"
  have o: "onImport (exportCSV roster agents) roster0 agents0
             = (None, foldl importRow (agents0, roster0) ?rows)"
    by (simp add: onImport_def parseCSV_exportCSV [OF assms(1)] header_present
             split: prod.splits)
  show "fst (onImport (exportCSV roster agents) roster0 agents0) = None"
    by (simp add: o)
  have ne: "\<forall>(nm, d)\<in>set (exportPairs agents). nm \<noteq> []"
    using assms(1) exportPairs_names by (fastforce simp: csvSafe_def)
  show "lookupBlock (snd (snd (onImport (exportCSV roster agents) roster0 agents0))) (name a) d
           = Some (rowBlock (rowObject csvHeader (csvCells roster (name a) d)))"
    using foldl_importRow_export [OF ne exportPairs_member [OF assms(2)]]
    by (simp add: o)
qed

text \<open>
  C6 as stated fails. A block with a break start but a break length of 0 (the default
  block after the break has been stepped down to 0 minutes) is exported with
  \<^verbatim>\<open>break_start = 13:00\<close> and \<^verbatim>\<open>break_minutes = 0\<close>; the importer keeps a break start only
  when \<^verbatim>\<open>break_minutes > 0\<close>, so the block read back has no break start.
\<close>

theorem roundtrip_drops_break_start:
  "fst (onImport
         (exportCSV [''Ali'' \<mapsto> [Monday \<mapsto> DEFAULT_DAY\<lparr>breakMins := Some (Num 0)\<rparr>]]
            [importedAgent ''Ali''])
         [''Ali'' \<mapsto> [Monday \<mapsto> DEFAULT_DAY\<lparr>breakMins := Some (Num 0)\<rparr>]]
         [importedAgent ''Ali'']) = None
   \<and> map_option breakStartMin
        (lookupBlock [''Ali'' \<mapsto> [Monday \<mapsto> DEFAULT_DAY\<lparr>breakMins := Some (Num 0)\<rparr>]]
           ''Ali'' Monday) = Some (Some (Num 780))
   \<and> map_option breakStartMin
        (lookupBlock
           (snd (snd (onImport
              (exportCSV [''Ali'' \<mapsto> [Monday \<mapsto> DEFAULT_DAY\<lparr>breakMins := Some (Num 0)\<rparr>]]
                 [importedAgent ''Ali''])
              [''Ali'' \<mapsto> [Monday \<mapsto> DEFAULT_DAY\<lparr>breakMins := Some (Num 0)\<rparr>]]
              [importedAgent ''Ali''])))
           ''Ali'' Monday) = Some None"
proof -
  let ?R = "[''Ali'' \<mapsto> [Monday \<mapsto> DEFAULT_DAY\<lparr>breakMins := Some (Num 0)\<rparr>]]"
  let ?A = "[importedAgent ''Ali'']"
  have safe: "\<forall>a\<in>set ?A. csvSafe (name a)"
    by (simp add: importedAgent_def csvSafe_def isSpace_def)
  have mem: "importedAgent ''Ali'' \<in> set ?A" by simp
  have nm: "name (importedAgent ''Ali'') = ''Ali''" by (simp add: importedAgent_def)
  have blk: "blockOrDefault ?R ''Ali'' Monday = DEFAULT_DAY\<lparr>breakMins := Some (Num 0)\<rparr>"
    by (simp add: blockOrDefault_def)
  have wf: "wellFormedBlock (blockOrDefault ?R ''Ali'' Monday)"
    unfolding blk by (simp add: wellFormedBlock_def minuteOfDay_def DEFAULT_DAY_def)
  have "lookupBlock (snd (snd (onImport (exportCSV ?R ?A) ?R ?A))) ''Ali'' Monday
          = Some (reimported (DEFAULT_DAY\<lparr>breakMins := Some (Num 0)\<rparr>))"
    using export_import_block(2) [OF safe mem, where roster = ?R and ?roster0.0 = ?R
            and ?agents0.0 = ?A and d = Monday] rowBlock_export [OF wf]
    unfolding nm blk by simp
  then show ?thesis
    using export_import_block(1) [OF safe mem, where roster = ?R and ?roster0.0 = ?R
            and ?agents0.0 = ?A]
    by (simp add: reimported_def lookupBlock_def DEFAULT_DAY_def)
qed

text \<open>
  C6, amended. Let every agent name be free of commas and line feeds, non-empty and
  without white space at its ends, and let the exported block of an agent and weekday
  (the stored one, or the default when none is stored) hold start, end and break start
  within 0..1439 and a non-negative break length. Then the import of the exported text,
  into any prior state, raises no alert and stores for that agent and weekday the block
  with the same active flag, start and end, with the break length read as a number
  (a missing one as 0), and with the break start kept when the break length is positive
  and dropped otherwise.
\<close>

theorem export_import_roundtrip:
  assumes "\<forall>a\<in>set agents. csvSafe (name a)"
    and "a \<in> set agents"
    and "wellFormedBlock (blockOrDefault roster (name a) d)"
  shows "fst (onImport (exportCSV roster agents) roster0 agents0) = None
         \<and> lookupBlock (snd (snd (onImport (exportCSV roster agents) roster0 agents0)))
             (name a) d
           = Some \<lparr> active = active (blockOrDefault roster (name a) d),
                    startMin = startMin (blockOrDefault roster (name a) d),
                    endMin = endMin (blockOrDefault roster (name a) d),
                    breakStartMin =
                      (if jgt (orZero (breakMins (blockOrDefault roster (name a) d))) (Num 0)
                       then breakStartMin (blockOrDefault roster (name a) d) else None),
                    breakMins = Some (orZero (breakMins (blockOrDefault roster (name a) d))) \<rparr>"
  using export_import_block [OF assms(1,2)] rowBlock_export [OF assms(3)]
  by (simp add: reimported_def)

theorem export_import_roundtrip_witness:
  "csvSafe (name (importedAgent ''Ali''))
   \<and> importedAgent ''Ali'' \<in> set [importedAgent ''Ali'']
   \<and> wellFormedBlock (blockOrDefault [''Ali'' \<mapsto> [Monday \<mapsto> DEFAULT_DAY]] ''Ali'' Monday)
   \<and> lookupBlock
        (snd (snd (onImport
           (exportCSV [''Ali'' \<mapsto> [Monday \<mapsto> DEFAULT_DAY]] [importedAgent ''Ali''])
           Map.empty [])))
        ''Ali'' Monday = Some DEFAULT_DAY"
proof -
  let ?R = "[''Ali'' \<mapsto> [Monday \<mapsto> DEFAULT_DAY]]"
  let ?A = "[importedAgent ''Ali'']"
  have nm: "name (importedAgent ''Ali'') = ''Ali''" by (simp add: importedAgent_def)
  have s: "csvSafe ''Ali''" by (simp add: csvSafe_def isSpace_def)
  then have safe: "\<forall>a\<in>set ?A. csvSafe (name a)" by (simp add: nm)
  have mem: "importedAgent ''Ali'' \<in> set ?A" by simp
  have blk: "blockOrDefault ?R ''Ali'' Monday = DEFAULT_DAY"
    by (simp add: blockOrDefault_def)
  have wf: "wellFormedBlock (blockOrDefault ?R (name (importedAgent ''Ali'')) Monday)"
    unfolding nm blk by (simp add: wellFormedBlock_def minuteOfDay_def DEFAULT_DAY_def)
  have "lookupBlock (snd (snd (onImport (exportCSV ?R ?A) Map.empty []))) ''Ali'' Monday
          = Some DEFAULT_DAY"
    using export_import_roundtrip [where agents = ?A and a = "importedAgent ''Ali''"
            and roster = ?R and d = Monday and ?roster0.0 = Map.empty and ?agents0.0 = "[]",
            OF safe mem wf]
    unfolding nm blk by (simp add: DEFAULT_DAY_def)
  then show ?thesis
    using s wf unfolding nm by simp
qed

end
